theory Spec2Isabelle
  imports Complex_Main
begin

section \<open>Values of the request: numbers and JSON\<close>

text \<open>
  \<^verbatim>\<open>json.loads\<close> yields Python values. A JSON number is an unbounded \<open>int\<close> or a
  \<open>float\<close>; the literals \<^verbatim>\<open>NaN\<close>, \<^verbatim>\<open>Infinity\<close> and \<^verbatim>\<open>-Infinity\<close> are accepted and give
  the special floats. Python compares \<open>int\<close> and \<open>float\<close> by exact value, so a finite
  number is represented by a rational; every comparison with \<open>NaN\<close> is false.
\<close>

datatype pynum = Fin rat | PosInf | NegInf | NaN

fun py_lt :: "pynum \<Rightarrow> pynum \<Rightarrow> bool" where
  "py_lt (Fin x) (Fin y) = (x < y)"
| "py_lt (Fin x) PosInf = True"
| "py_lt NegInf (Fin y) = True"
| "py_lt NegInf PosInf = True"
| "py_lt _ _ = False"

fun py_le :: "pynum \<Rightarrow> pynum \<Rightarrow> bool" where
  "py_le (Fin x) (Fin y) = (x \<le> y)"
| "py_le (Fin x) PosInf = True"
| "py_le NegInf (Fin y) = True"
| "py_le NegInf PosInf = True"
| "py_le PosInf PosInf = True"
| "py_le NegInf NegInf = True"
| "py_le _ _ = False"

definition py_gt :: "pynum \<Rightarrow> pynum \<Rightarrow> bool" where
  "py_gt a b = py_lt b a"

text \<open>A \<open>dict\<close> is kept as the list of its items; \<open>map_of\<close> is the lookup.\<close>

datatype json =
    JNull
  | JBool bool
  | JInt int
  | JFloat pynum
  | JStr string
  | JList "json list"
  | JDict "(string \<times> json) list"

text \<open>
  \<^verbatim>\<open>isinstance(v, (int, float))\<close>: \<open>bool\<close> is a subclass of \<open>int\<close> in Python, with
  \<open>True == 1\<close> and \<open>False == 0\<close>. \<open>num_val v\<close> is the number \<open>v\<close> compares as, and
  \<open>None\<close> exactly when the \<open>isinstance\<close> test fails (where an ordering comparison with a
  number raises \<open>TypeError\<close>).
\<close>

fun num_val :: "json \<Rightarrow> pynum option" where
  "num_val (JBool b) = Some (Fin (if b then 1 else 0))"
| "num_val (JInt i) = Some (Fin (of_int i))"
| "num_val (JFloat f) = Some f"
| "num_val _ = None"

definition is_number :: "json \<Rightarrow> bool" where
  "is_number v = (num_val v \<noteq> None)"

section \<open>Errors\<close>

text \<open>
  Every \<open>detail\<close> constructor stands for one message of \<^verbatim>\<open>main.py\<close> and carries the values
  its f-string interpolates: clip indices as the source computes them (\<open>i\<close> in the two
  validation loops, \<open>i + 1\<close> in the extraction loop), the offending end value, the probed
  duration, the text of the underlying exception. \<open>PlainValueError\<close> is the bare
  \<^verbatim>\<open>detail=str(e)\<close> of line 211 for a \<open>ValueError\<close> that the validation did not raise.
\<close>

datatype detail =
    InvalidFileType
  | InvalidJSON string
  | PlainValueError string
  | ClipsMustBeList
  | ClipMustBeDict nat
  | ClipMissingKeys nat
  | ClipNotNumbers nat
  | ClipNegative nat
  | ClipEndNotGreater nat
  | NoClips
  | ClipEndExceeds nat json pynum
  | FailedToCreateClip nat string
  | ClipNotCreated nat
  | FailedZip
  | ErrorClipping string
  | FailedConvert
  | ErrorConverting string

datatype exn = HTTPException nat detail | Exception string

section \<open>Parsing and structural validation of the clip plan (lines 181-212)\<close>

text \<open>The body of the first \<^verbatim>\<open>for i, clip in enumerate(clips_data)\<close> loop, for one entry.\<close>

fun check_clip :: "nat \<Rightarrow> json \<Rightarrow> detail option" where
  "check_clip i (JDict kvs) =
     (case (map_of kvs ''start'', map_of kvs ''end'') of
        (Some s, Some e) \<Rightarrow>
          (case (num_val s, num_val e) of
             (Some x, Some y) \<Rightarrow>
               if py_lt x (Fin 0) \<or> py_lt y (Fin 0) then Some (ClipNegative i)
               else if py_le y x then Some (ClipEndNotGreater i)
               else None
           | _ \<Rightarrow> Some (ClipNotNumbers i))
      | _ \<Rightarrow> Some (ClipMissingKeys i))"
| "check_clip i _ = Some (ClipMustBeDict i)"

fun validate_clips :: "nat \<Rightarrow> json list \<Rightarrow> detail option" where
  "validate_clips i [] = None"
| "validate_clips i (c # cs) =
     (case check_clip i c of
        Some d \<Rightarrow> Some d
      | None \<Rightarrow> validate_clips (Suc i) cs)"

text \<open>
  What \<^verbatim>\<open>json.loads\<close> does with a text: it returns a value, or raises
  \<open>JSONDecodeError\<close>, or raises a \<open>ValueError\<close> that is not a \<open>JSONDecodeError\<close> (an
  integer literal beyond the limit of integer string conversion), or raises an exception
  that is not a \<open>ValueError\<close> (\<open>RecursionError\<close> on deeply nested brackets).
\<close>

datatype loads_result =
    Loaded json
  | JSONDecodeError string
  | ValueError string
  | OtherError string

text \<open>
  Lines 181-212. \<open>Inl (HTTPException 400 d)\<close> is the exception raised by one of the two
  handlers: the first catches \<open>JSONDecodeError\<close>, the second every other \<open>ValueError\<close>,
  those of the validation and that of \<^verbatim>\<open>json.loads\<close>. No handler catches an exception that
  is not a \<open>ValueError\<close>: \<open>Inl (Exception e)\<close> leaves the endpoint.
\<close>

definition parse_clips :: "(string \<Rightarrow> loads_result) \<Rightarrow> string \<Rightarrow> exn + json list" where
  "parse_clips loads raw =
     (case loads raw of
        JSONDecodeError msg \<Rightarrow> Inl (HTTPException 400 (InvalidJSON msg))
      | ValueError msg \<Rightarrow> Inl (HTTPException 400 (PlainValueError msg))
      | OtherError e \<Rightarrow> Inl (Exception e)
      | Loaded (JList cs) \<Rightarrow>
          (case validate_clips 0 cs of
             Some d \<Rightarrow> Inl (HTTPException 400 d)
           | None \<Rightarrow> if length cs = 0 then Inl (HTTPException 400 NoClips) else Inr cs)
      | Loaded _ \<Rightarrow> Inl (HTTPException 400 ClipsMustBeList))"

section \<open>Scratch storage and the external collaborators\<close>

type_synonym path = string

datatype fobj = Plain string | Zip "string list" | Dir

type_synonym fs = "path \<Rightarrow> fobj option"

text \<open>The calls made to the media engine and the temp-file allocator, in order.\<close>

datatype call =
    NamedTemporaryFile string
  | VideoFileClip path
  | WriteAudiofile path path
  | FfmpegExtractSubclip path json json path

record world =
  files :: fs
  calls :: "call list"

text \<open>
  What the service does not implement is a parameter. A call that can raise returns the
  text of the exception together with the storage it leaves behind.
  \<^item> \<open>json_loads\<close>: \<^verbatim>\<open>json.loads\<close>.
  \<^item> \<open>named_temporary_file suffix content\<close>: lines 103-110 and 222-229, the upload written to
    a new file of \<open>TEMP_DIR\<close>; \<open>Inr\<close> gives its name.
  \<^item> \<open>video_duration\<close>: \<^verbatim>\<open>VideoFileClip(path).duration\<close>.
  \<^item> \<open>write_audiofile src dst\<close>: lines 117-125.
  \<^item> \<open>ffmpeg_extract_subclip src start end target\<close>.
  \<^item> \<open>undeletable\<close>: the entries whose removal the operating system refuses;
    \<open>tree_walk d\<close>: the order in which \<^verbatim>\<open>shutil.rmtree(d)\<close> removes the entries of \<open>d\<close>.
\<close>

record env =
  json_loads :: "string \<Rightarrow> loads_result"
  named_temporary_file :: "string \<Rightarrow> string \<Rightarrow> fs \<Rightarrow> (string + path) \<times> fs"
  video_duration :: "path \<Rightarrow> fs \<Rightarrow> string + pynum"
  write_audiofile :: "path \<Rightarrow> path \<Rightarrow> fs \<Rightarrow> string option \<times> fs"
  ffmpeg_extract_subclip :: "path \<Rightarrow> json \<Rightarrow> json \<Rightarrow> path \<Rightarrow> fs \<Rightarrow> string option \<times> fs"
  undeletable :: "path \<Rightarrow> bool"
  tree_walk :: "path \<Rightarrow> path list"

section \<open>\<open>cleanup_files\<close> (lines 341-351)\<close>

definition os_remove :: "env \<Rightarrow> path \<Rightarrow> fs \<Rightarrow> string option \<times> fs" where
  "os_remove en p fs =
     (case fs p of
        None \<Rightarrow> (Some ''FileNotFoundError'', fs)
      | Some Dir \<Rightarrow> (Some ''IsADirectoryError'', fs)
      | Some _ \<Rightarrow>
          if undeletable en p then (Some ''PermissionError'', fs)
          else (None, fs(p := None)))"

text \<open>\<^verbatim>\<open>shutil.rmtree\<close> stops at the first entry it cannot remove and keeps what is left.\<close>

fun rmtree_walk :: "env \<Rightarrow> path list \<Rightarrow> fs \<Rightarrow> string option \<times> fs" where
  "rmtree_walk en [] fs = (None, fs)"
| "rmtree_walk en (q # qs) fs =
     (if fs q = None then rmtree_walk en qs fs
      else if undeletable en q then (Some ''PermissionError'', fs)
      else rmtree_walk en qs (fs(q := None)))"

definition shutil_rmtree :: "env \<Rightarrow> path \<Rightarrow> fs \<Rightarrow> string option \<times> fs" where
  "shutil_rmtree en p fs = rmtree_walk en (tree_walk en p) fs"

text \<open>
  One iteration of the loop. \<open>None\<close> and the empty string are falsy; the
  \<^verbatim>\<open>except Exception: pass\<close> turns a raise of the removal into a normal exit.
\<close>

definition cleanup_one :: "env \<Rightarrow> path option \<Rightarrow> fs \<Rightarrow> string option \<times> fs" where
  "cleanup_one en file_path fs =
     (case file_path of
        None \<Rightarrow> (None, fs)
      | Some p \<Rightarrow>
          if p \<noteq> [] \<and> fs p \<noteq> None then
            (case (if fs p = Some Dir then shutil_rmtree en p fs else os_remove en p fs) of
               (Some e, fs') \<Rightarrow> (None, fs')
             | (None, fs') \<Rightarrow> (None, fs'))
          else (None, fs))"

fun cleanup_files :: "env \<Rightarrow> path option list \<Rightarrow> fs \<Rightarrow> string option \<times> fs" where
  "cleanup_files en [] fs = (None, fs)"
| "cleanup_files en (p # ps) fs =
     (case cleanup_one en p fs of
        (Some e, fs') \<Rightarrow> (Some e, fs')
      | (None, fs') \<Rightarrow> cleanup_files en ps fs')"

section \<open>File names\<close>

text \<open>
  \<^verbatim>\<open>pathlib\<close> on a POSIX system: a path is split at \<open>/\<close>, empty components and \<open>.\<close>
  are dropped, \<open>name\<close> is the last component left (or the empty string), and
  \<open>suffix\<close> and \<open>stem\<close> cut \<open>name\<close> at its last dot, \<^verbatim>\<open>i = name.rfind('.')\<close>, when
  \<^verbatim>\<open>0 < i < len(name) - 1\<close>.
\<close>

fun split_on :: "char \<Rightarrow> string \<Rightarrow> string list" where
  "split_on c [] = [[]]"
| "split_on c (x # xs) =
     (if x = c then [] # split_on c xs
      else (case split_on c xs of
              [] \<Rightarrow> [[x]]
            | y # ys \<Rightarrow> (x # y) # ys))"

definition py_name :: "string \<Rightarrow> string" where
  "py_name s =
     (case filter (\<lambda>p. p \<noteq> [] \<and> p \<noteq> ''.'') (split_on CHR ''/'' s) of
        [] \<Rightarrow> []
      | p # ps \<Rightarrow> last (p # ps))"

fun rfind :: "char \<Rightarrow> string \<Rightarrow> nat option" where
  "rfind c [] = None"
| "rfind c (x # xs) =
     (case rfind c xs of
        Some i \<Rightarrow> Some (Suc i)
      | None \<Rightarrow> if x = c then Some 0 else None)"

definition cut_name :: "string \<Rightarrow> nat option" where
  "cut_name nm =
     (case rfind CHR ''.'' nm of
        Some i \<Rightarrow> if 0 < i \<and> i < length nm - 1 then Some i else None
      | None \<Rightarrow> None)"

definition py_suffix :: "string \<Rightarrow> string" where
  "py_suffix s = (case cut_name (py_name s) of Some i \<Rightarrow> drop i (py_name s) | None \<Rightarrow> [])"

definition py_stem :: "string \<Rightarrow> string" where
  "py_stem s = (case cut_name (py_name s) of Some i \<Rightarrow> take i (py_name s) | None \<Rightarrow> py_name s)"

text \<open>\<^verbatim>\<open>str(n)\<close> for a natural number.\<close>

definition digit_char :: "nat \<Rightarrow> char" where
  "digit_char d = ''0123456789'' ! d"

fun str_nat :: "nat \<Rightarrow> string" where
  "str_nat n = (if n < 10 then [digit_char n] else str_nat (n div 10) @ [digit_char (n mod 10)])"

declare str_nat.simps [simp del]

text \<open>
  \<^verbatim>\<open>TEMP_DIR / name\<close> with \<^verbatim>\<open>TEMP_DIR = Path("temp")\<close>. Every \<open>name\<close> joined in this
  program is a stem followed by a fixed ending, so it is one relative component.
\<close>

definition temp_join :: "string \<Rightarrow> path" where
  "temp_join nm = ''temp/'' @ nm"

text \<open>Lines 266-267, for the 0-based loop index \<open>i\<close>.\<close>

definition clip_filename :: "string \<Rightarrow> nat \<Rightarrow> nat \<Rightarrow> string" where
  "clip_filename base total_clips i =
     base @ ''_clip'' @ (if total_clips = 1 then [] else ''_'' @ str_nat (i + 1)) @ ''.mp4''"

definition zip_filename :: "string \<Rightarrow> string" where
  "zip_filename base = base @ ''_clips.zip''"

section \<open>The request\<close>

record upload =
  content_type :: "string option"
  filename :: "string option"
  content :: string

text \<open>\<^verbatim>\<open>not file.content_type or not file.content_type.startswith("video/")\<close>, negated.\<close>

definition is_video :: "upload \<Rightarrow> bool" where
  "is_video up = (case content_type up of None \<Rightarrow> False | Some ct \<Rightarrow> take 6 ct = ''video/'')"

text \<open>\<^verbatim>\<open>x if file.filename else y\<close>: a missing and an empty file name are both falsy.\<close>

definition video_ext :: "upload \<Rightarrow> string" where
  "video_ext up =
     (case filename up of
        None \<Rightarrow> ''.mp4''
      | Some fn \<Rightarrow> if fn = [] then ''.mp4'' else py_suffix fn)"

definition base_filename :: "upload \<Rightarrow> string" where
  "base_filename up =
     (case filename up of
        None \<Rightarrow> ''video''
      | Some fn \<Rightarrow> if fn = [] then ''video'' else py_stem fn)"

definition audio_filename :: "upload \<Rightarrow> string" where
  "audio_filename up =
     (case filename up of
        None \<Rightarrow> ''output.mp3''
      | Some fn \<Rightarrow> if fn = [] then ''output.mp3'' else py_stem fn @ ''.mp3'')"

text \<open>
  \<open>Uncaught e\<close>: the exception \<open>e\<close> leaves the endpoint function, and the framework answers
  with its own 500.
\<close>

datatype response = HTTPError nat detail | FileResponse path string string | Uncaught string

text \<open>
  How a \<^verbatim>\<open>try\<close> body ends: with a response and the paths handed to
  \<^verbatim>\<open>background_tasks.add_task(cleanup_files, ...)\<close>, or with an exception.
\<close>

datatype outcome = Returned response "path option list" | Raised exn

section \<open>\<open>/clip\<close> (lines 156-338)\<close>

definition get_item :: "json \<Rightarrow> string \<Rightarrow> string + json" where
  "get_item c k =
     (case c of
        JDict kvs \<Rightarrow> (case map_of kvs k of None \<Rightarrow> Inl ''KeyError'' | Some v \<Rightarrow> Inr v)
      | _ \<Rightarrow> Inl ''TypeError'')"

text \<open>Lines 238-244: the ranges against the probed duration.\<close>

fun check_durations :: "nat \<Rightarrow> json list \<Rightarrow> pynum \<Rightarrow> exn option" where
  "check_durations i [] d = None"
| "check_durations i (c # cs) d =
     (case get_item c ''end'' of
        Inl e \<Rightarrow> Some (Exception e)
      | Inr v \<Rightarrow>
          (case num_val v of
             None \<Rightarrow> Some (Exception ''TypeError'')
           | Some x \<Rightarrow>
               if py_gt x d then Some (HTTPException 400 (ClipEndExceeds i v d))
               else check_durations (Suc i) cs d))"

text \<open>
  \<^verbatim>\<open>zipfile.ZipFile(path, 'w')\<close> creates or truncates the archive; \<^verbatim>\<open>zipf.write(file, arcname)\<close>
  appends one entry. An archive is represented by the names of its entries, in order.
\<close>

definition zip_open :: "path \<Rightarrow> fs \<Rightarrow> string option \<times> fs" where
  "zip_open zp fs =
     (if fs zp = Some Dir then (Some ''IsADirectoryError'', fs)
      else (None, fs(zp \<mapsto> Zip [])))"

definition zip_write :: "path \<Rightarrow> path \<Rightarrow> string \<Rightarrow> fs \<Rightarrow> string option \<times> fs" where
  "zip_write zp file arcname fs =
     (if fs file = None then (Some ''FileNotFoundError'', fs)
      else (case fs zp of
              Some (Zip es) \<Rightarrow> (None, fs(zp \<mapsto> Zip (es @ [arcname])))
            | _ \<Rightarrow> (None, fs)))"

text \<open>
  Lines 254-309: the extraction loop, from index \<open>i\<close> on. It returns the exception that
  ended it, if any, with \<open>clip_paths\<close> and the world as they are at that moment.
\<close>

fun clip_loop ::
  "env \<Rightarrow> path \<Rightarrow> string \<Rightarrow> nat \<Rightarrow> path \<Rightarrow> nat \<Rightarrow> json list \<Rightarrow> path list \<Rightarrow> world
     \<Rightarrow> exn option \<times> path list \<times> world" where
  "clip_loop en src base total_clips zp i [] clip_paths w = (None, clip_paths, w)"
| "clip_loop en src base total_clips zp i (c # cs) clip_paths w =
     (case get_item c ''start'' of
        Inl e \<Rightarrow> (Some (Exception e), clip_paths, w)
      | Inr start_time \<Rightarrow>
     (case get_item c ''end'' of
        Inl e \<Rightarrow> (Some (Exception e), clip_paths, w)
      | Inr end_time \<Rightarrow>
     (let clip_path = temp_join (clip_filename base total_clips i);
          r = ffmpeg_extract_subclip en src start_time end_time clip_path (files w);
          w1 = \<lparr>files = snd r,
                calls = calls w @ [FfmpegExtractSubclip src start_time end_time clip_path]\<rparr>
      in case fst r of
           Some err \<Rightarrow> (Some (HTTPException 500 (FailedToCreateClip (i + 1) err)), clip_paths, w1)
         | None \<Rightarrow>
             if files w1 clip_path = None
             then (Some (HTTPException 500 (ClipNotCreated (i + 1))), clip_paths, w1)
             else (case zip_write zp clip_path (clip_filename base total_clips i) (files w1) of
                     (Some e, fs2) \<Rightarrow> (Some (Exception e), clip_paths, w1\<lparr>files := fs2\<rparr>)
                   | (None, fs2) \<Rightarrow>
                       clip_loop en src base total_clips zp (Suc i) cs (clip_paths @ [clip_path])
                         (w1\<lparr>files := fs2\<rparr>)))))"

text \<open>
  The local variables the \<^verbatim>\<open>except Exception\<close> handler reads:
  \<open>temp_video_path\<close>, \<open>temp_zip_path\<close>, \<open>clip_paths\<close>.
\<close>

record clip_locals =
  temp_video_path :: "path option"
  temp_zip_path :: "path option"
  clip_paths :: "path list"

text \<open>Lines 246-328, entered once the ranges have passed the duration check.\<close>

definition clip_archive ::
  "env \<Rightarrow> upload \<Rightarrow> json list \<Rightarrow> path \<Rightarrow> world \<Rightarrow> outcome \<times> clip_locals \<times> world" where
  "clip_archive en up clips_data src w =
     (let base = base_filename up;
          total_clips = length clips_data;
          zp = temp_join (zip_filename base)
      in case zip_open zp (files w) of
           (Some e, fs1) \<Rightarrow>
             (Raised (Exception e),
              \<lparr>temp_video_path = Some src, temp_zip_path = Some zp, clip_paths = []\<rparr>,
              w\<lparr>files := fs1\<rparr>)
         | (None, fs1) \<Rightarrow>
             (case clip_loop en src base total_clips zp 0 clips_data [] (w\<lparr>files := fs1\<rparr>) of
                (Some ex, cps, w2) \<Rightarrow>
                  (Raised ex,
                   \<lparr>temp_video_path = Some src, temp_zip_path = Some zp, clip_paths = cps\<rparr>, w2)
              | (None, cps, w2) \<Rightarrow>
                  if files w2 zp = None then
                    (Raised (HTTPException 500 FailedZip),
                     \<lparr>temp_video_path = Some src, temp_zip_path = Some zp, clip_paths = cps\<rparr>,
                     w2\<lparr>files := snd (cleanup_files en (Some src # map Some cps) (files w2))\<rparr>)
                  else
                    (Returned (FileResponse zp (zip_filename base) ''application/zip'')
                       ([Some src, Some zp] @ map Some cps),
                     \<lparr>temp_video_path = Some src, temp_zip_path = Some zp, clip_paths = cps\<rparr>,
                     w2)))"

text \<open>Lines 220-328: the \<^verbatim>\<open>try\<close> body.\<close>

definition clip_body ::
  "env \<Rightarrow> upload \<Rightarrow> json list \<Rightarrow> world \<Rightarrow> outcome \<times> clip_locals \<times> world" where
  "clip_body en up clips_data w =
     (case named_temporary_file en (video_ext up) (content up) (files w) of
        (Inl e, fs1) \<Rightarrow>
          (Raised (Exception e),
           \<lparr>temp_video_path = None, temp_zip_path = None, clip_paths = []\<rparr>,
           \<lparr>files = fs1, calls = calls w @ [NamedTemporaryFile (video_ext up)]\<rparr>)
      | (Inr src, fs1) \<Rightarrow>
          (let w1 = \<lparr>files = fs1,
                     calls = calls w @ [NamedTemporaryFile (video_ext up), VideoFileClip src]\<rparr>;
               loc = \<lparr>temp_video_path = Some src, temp_zip_path = None, clip_paths = []\<rparr>
           in case video_duration en src fs1 of
                Inl e \<Rightarrow> (Raised (Exception e), loc, w1)
              | Inr d \<Rightarrow>
                  (case check_durations 0 clips_data d of
                     Some ex \<Rightarrow> (Raised ex, loc, w1)
                   | None \<Rightarrow> clip_archive en up clips_data src w1)))"

text \<open>
  The two handlers of lines 330-338: an \<open>HTTPException\<close> is raised again as it is; any
  other exception runs \<open>cleanup_files\<close> and becomes a 500.
\<close>

definition clip_handlers ::
  "env \<Rightarrow> outcome \<times> clip_locals \<times> world \<Rightarrow> response \<times> path option list \<times> world" where
  "clip_handlers en r =
     (case r of
        (Returned resp bg, loc, w) \<Rightarrow> (resp, bg, w)
      | (Raised (HTTPException code d), loc, w) \<Rightarrow> (HTTPError code d, [], w)
      | (Raised (Exception e), loc, w) \<Rightarrow>
          (HTTPError 500 (ErrorClipping e), [],
           w\<lparr>files := snd (cleanup_files en
                ([temp_video_path loc, temp_zip_path loc] @ map Some (clip_paths loc))
                (files w))\<rparr>))"

text \<open>
  The endpoint: the response, the paths of the scheduled background cleanup, and the
  world it leaves.
\<close>

definition clip_video ::
  "env \<Rightarrow> upload \<Rightarrow> string \<Rightarrow> world \<Rightarrow> response \<times> path option list \<times> world" where
  "clip_video en up clips w =
     (if \<not> is_video up then (HTTPError 400 InvalidFileType, [], w)
      else (case parse_clips (json_loads en) clips of
              Inl (HTTPException code d) \<Rightarrow> (HTTPError code d, [], w)
            | Inl (Exception e) \<Rightarrow> (Uncaught e, [], w)
            | Inr clips_data \<Rightarrow> clip_handlers en (clip_body en up clips_data w)))"

text \<open>The background task, run once the response has been sent.\<close>

definition run_background :: "env \<Rightarrow> path option list \<Rightarrow> world \<Rightarrow> world" where
  "run_background en bg w = w\<lparr>files := snd (cleanup_files en bg (files w))\<rparr>"

section \<open>\<open>/convert\<close> (lines 82-153)\<close>

record convert_locals =
  temp_video :: "path option"
  temp_audio :: "path option"

definition convert_body ::
  "env \<Rightarrow> upload \<Rightarrow> world \<Rightarrow> outcome \<times> convert_locals \<times> world" where
  "convert_body en up w =
     (case named_temporary_file en (video_ext up) (content up) (files w) of
        (Inl e, fs1) \<Rightarrow>
          (Raised (Exception e), \<lparr>temp_video = None, temp_audio = None\<rparr>,
           \<lparr>files = fs1, calls = calls w @ [NamedTemporaryFile (video_ext up)]\<rparr>)
      | (Inr src, fs1) \<Rightarrow>
          (let ap = temp_join (audio_filename up);
               r = write_audiofile en src ap fs1;
               w1 = \<lparr>files = snd r,
                     calls = calls w @ [NamedTemporaryFile (video_ext up), WriteAudiofile src ap]\<rparr>;
               loc = \<lparr>temp_video = Some src, temp_audio = Some ap\<rparr>
           in case fst r of
                Some e \<Rightarrow> (Raised (Exception e), loc, w1)
              | None \<Rightarrow>
                  if files w1 ap = None then
                    (Raised (HTTPException 500 FailedConvert), loc,
                     w1\<lparr>files := snd (cleanup_files en [Some src] (files w1))\<rparr>)
                  else
                    (Returned (FileResponse ap (audio_filename up) ''audio/mpeg'')
                       [Some src, Some ap], loc, w1)))"

definition convert_video_to_audio ::
  "env \<Rightarrow> upload \<Rightarrow> world \<Rightarrow> response \<times> path option list \<times> world" where
  "convert_video_to_audio en up w =
     (if \<not> is_video up then (HTTPError 400 InvalidFileType, [], w)
      else (case convert_body en up w of
              (Returned resp bg, loc, w1) \<Rightarrow> (resp, bg, w1)
            | (Raised (HTTPException code d), loc, w1) \<Rightarrow> (HTTPError code d, [], w1)
            | (Raised (Exception e), loc, w1) \<Rightarrow>
                (HTTPError 500 (ErrorConverting e), [],
                 w1\<lparr>files := snd (cleanup_files en [temp_video loc, temp_audio loc]
                                     (files w1))\<rparr>)))"

section \<open>Auxiliary notions for the proofs\<close>

text \<open>
  \<open>shrinks en fs fs'\<close>: \<open>fs'\<close> is \<open>fs\<close> with some removable entries removed.
  \<open>stuck en qs fs\<close>: a walk over \<open>qs\<close> changes nothing, as the first entry that exists
  cannot be removed. \<open>settled en p fs\<close>: the iteration of \<open>cleanup_files\<close> for \<open>p\<close> finds
  nothing that it can remove.
\<close>

definition shrinks :: "env \<Rightarrow> fs \<Rightarrow> fs \<Rightarrow> bool" where
  "shrinks en fs fs' = (\<forall>q. fs' q = fs q \<or> (fs' q = None \<and> \<not> undeletable en q))"

fun stuck :: "env \<Rightarrow> path list \<Rightarrow> fs \<Rightarrow> bool" where
  "stuck en [] fs = True"
| "stuck en (q # qs) fs = (if fs q = None then stuck en qs fs else undeletable en q)"

definition settled :: "env \<Rightarrow> path option \<Rightarrow> fs \<Rightarrow> bool" where
  "settled en po fs =
     (case po of
        None \<Rightarrow> True
      | Some p \<Rightarrow>
          p = [] \<or> fs p = None \<or>
          (if fs p = Some Dir then stuck en (tree_walk en p) fs else undeletable en p))"

text \<open>
  A storage with one file that cannot be removed, one that can, and a directory \<open>temp/d\<close>
  holding one file.
\<close>

definition env_locked :: env where
  "env_locked =
     \<lparr>json_loads = (\<lambda>s. JSONDecodeError ''Expecting value''),
      named_temporary_file = (\<lambda>suffix data fs. (Inl ''OSError'', fs)),
      video_duration = (\<lambda>p fs. Inl ''OSError''),
      write_audiofile = (\<lambda>src dst fs. (Some ''OSError'', fs)),
      ffmpeg_extract_subclip = (\<lambda>src s e dst fs. (Some ''OSError'', fs)),
      undeletable = (\<lambda>p. p = ''temp/locked.mp4''),
      tree_walk = (\<lambda>p. if p = ''temp/d'' then [''temp/d/x'', ''temp/d''] else [p])\<rparr>"

definition fs_locked :: fs where
  "fs_locked = [''temp/locked.mp4'' \<mapsto> Plain ''x'', ''temp/a.mp4'' \<mapsto> Plain ''y'',
                ''temp/d'' \<mapsto> Dir, ''temp/d/x'' \<mapsto> Plain ''z'']"

definition ps_locked :: "path option list" where
  "ps_locked = [None, Some ''temp/locked.mp4'', Some ''temp/never.mp4'', Some ''temp/a.mp4'',
                Some ''temp/d'']"

section \<open>The plan rules in the words of the specification\<close>

text \<open>
  The rules of the Clip Plan Validator as the specification words them, to be compared
  with \<open>check_clip\<close>, \<open>validate_clips\<close> and \<open>parse_clips\<close>: an entry is malformed if it is
  not an object, if it lacks \<open>start\<close> or \<open>end\<close>, if either is not numeric, if either is
  negative, or if \<open>end <= start\<close>; a plan is malformed if \<^verbatim>\<open>json.loads\<close> does not read it, or
  if it is not a list, is empty, or has a malformed entry. \<open>rule_detail\<close> gives the message
  of \<^verbatim>\<open>main.py\<close> for each rule, and \<open>malformed_input\<close> holds of the messages of the class
  \<open>MalformedInput\<close>.

  In \<open>spec_broken_rule\<close> a value is numeric when it passes the test of line 193, which a
  JSON boolean does. \<open>worded_broken_rule\<close> takes the word as the specification has it: a
  number, which \<open>true\<close> and \<open>false\<close> are not. \<open>decoded\<close> holds when \<^verbatim>\<open>json.loads\<close> returns a
  value or raises \<open>JSONDecodeError\<close>.
\<close>

datatype rule = NotAnObject | MissingStartEnd | NotNumeric | NegativeTime | EndNotAfterStart

definition is_object :: "json \<Rightarrow> bool" where
  "is_object c = (case c of JDict kvs \<Rightarrow> True | _ \<Rightarrow> False)"

definition has_key :: "json \<Rightarrow> string \<Rightarrow> bool" where
  "has_key c k = (case c of JDict kvs \<Rightarrow> map_of kvs k \<noteq> None | _ \<Rightarrow> False)"

definition field :: "json \<Rightarrow> string \<Rightarrow> json" where
  "field c k = (case get_item c k of Inr v \<Rightarrow> v | Inl e \<Rightarrow> JNull)"

definition seconds :: "json \<Rightarrow> pynum" where
  "seconds v = (case num_val v of Some x \<Rightarrow> x | None \<Rightarrow> NaN)"

definition spec_broken_rule :: "json \<Rightarrow> rule option" where
  "spec_broken_rule c =
     (if \<not> is_object c then Some NotAnObject
      else if \<not> has_key c ''start'' \<or> \<not> has_key c ''end'' then Some MissingStartEnd
      else if \<not> is_number (field c ''start'') \<or> \<not> is_number (field c ''end'') then Some NotNumeric
      else if py_lt (seconds (field c ''start'')) (Fin 0) \<or> py_lt (seconds (field c ''end'')) (Fin 0)
        then Some NegativeTime
      else if py_le (seconds (field c ''end'')) (seconds (field c ''start'')) then Some EndNotAfterStart
      else None)"

definition spec_malformed :: "loads_result \<Rightarrow> bool" where
  "spec_malformed r =
     (case r of
        Loaded (JList cs) \<Rightarrow> cs = [] \<or> (\<exists>c\<in>set cs. spec_broken_rule c \<noteq> None)
      | _ \<Rightarrow> True)"

definition decoded :: "loads_result \<Rightarrow> bool" where
  "decoded r = (case r of Loaded j \<Rightarrow> True | JSONDecodeError msg \<Rightarrow> True | _ \<Rightarrow> False)"

definition json_number :: "json \<Rightarrow> bool" where
  "json_number v = (case v of JInt i \<Rightarrow> True | JFloat f \<Rightarrow> True | _ \<Rightarrow> False)"

definition worded_broken_rule :: "json \<Rightarrow> rule option" where
  "worded_broken_rule c =
     (if \<not> is_object c then Some NotAnObject
      else if \<not> has_key c ''start'' \<or> \<not> has_key c ''end'' then Some MissingStartEnd
      else if \<not> json_number (field c ''start'') \<or> \<not> json_number (field c ''end'')
        then Some NotNumeric
      else if py_lt (seconds (field c ''start'')) (Fin 0) \<or> py_lt (seconds (field c ''end'')) (Fin 0)
        then Some NegativeTime
      else if py_le (seconds (field c ''end'')) (seconds (field c ''start'')) then Some EndNotAfterStart
      else None)"

fun rule_detail :: "rule \<Rightarrow> nat \<Rightarrow> detail" where
  "rule_detail NotAnObject i = ClipMustBeDict i"
| "rule_detail MissingStartEnd i = ClipMissingKeys i"
| "rule_detail NotNumeric i = ClipNotNumbers i"
| "rule_detail NegativeTime i = ClipNegative i"
| "rule_detail EndNotAfterStart i = ClipEndNotGreater i"

fun malformed_input :: "detail \<Rightarrow> bool" where
  "malformed_input (InvalidJSON msg) = True"
| "malformed_input (PlainValueError msg) = True"
| "malformed_input ClipsMustBeList = True"
| "malformed_input (ClipMustBeDict i) = True"
| "malformed_input (ClipMissingKeys i) = True"
| "malformed_input (ClipNotNumbers i) = True"
| "malformed_input (ClipNegative i) = True"
| "malformed_input (ClipEndNotGreater i) = True"
| "malformed_input NoClips = True"
| "malformed_input _ = False"

text \<open>
  \<open>beyond_parsing\<close>: an exception that does not carry a \<open>MalformedInput\<close> message.
  \<open>bool_as_int\<close> reads a JSON boolean as the integer Python compares it as.
\<close>

definition beyond_parsing :: "exn \<Rightarrow> bool" where
  "beyond_parsing ex = (case ex of HTTPException c d \<Rightarrow> \<not> malformed_input d | Exception e \<Rightarrow> True)"

definition bool_as_int :: "json \<Rightarrow> json" where
  "bool_as_int v = (case v of JBool b \<Rightarrow> JInt (if b then 1 else 0) | _ \<Rightarrow> v)"

definition entry_bools_as_ints :: "json \<Rightarrow> json" where
  "entry_bools_as_ints c =
     (case c of JDict kvs \<Rightarrow> JDict (map (\<lambda>(k, v). (k, bool_as_int v)) kvs) | _ \<Rightarrow> c)"

definition bool_or_number :: "json \<Rightarrow> bool" where
  "bool_or_number v = (case v of JBool b \<Rightarrow> True | JInt i \<Rightarrow> True | JFloat f \<Rightarrow> True | _ \<Rightarrow> False)"

section \<open>Concrete requests and collaborators\<close>

text \<open>
  A media engine on which every call succeeds, with a \<^verbatim>\<open>json.loads\<close> given by a table of
  the plans used below. A stored upload with content \<open>22s\<close> is probed as 22 seconds long,
  any other as 30 seconds. \<open>plan_deep\<close> is a thousand opening brackets followed by a thousand
  closing ones: valid JSON, the list \<open>nested 999\<close>, on which \<^verbatim>\<open>json.loads\<close> raises
  \<open>RecursionError\<close>. \<open>plan_long\<close> is the one-entry plan \<open>entry_long\<close>, whose \<open>end\<close> has 5001
  digits, on which \<^verbatim>\<open>json.loads\<close> raises a \<open>ValueError\<close> of the integer conversion.
\<close>

definition plan_two :: string where
  \<open>plan_two = ''[{"start":5,"end":10},{"start":20,"end":25}]''\<close>

definition plan_bad :: string where
  \<open>plan_bad = ''[{"start":5,"end":10},{"start":20,"end":15}]''\<close>

definition plan_bool :: string where
  \<open>plan_bool = ''[{"start":false,"end":true}]''\<close>

definition plan_deep :: string where
  "plan_deep = replicate 1000 CHR ''['' @ replicate 1000 CHR '']''"

definition plan_long :: string where
  \<open>plan_long = ''[{"start":0,"end":1'' @ replicate 5000 CHR ''0'' @ ''}]''\<close>

definition end_long :: int where
  "end_long = 10 ^ 5000"

definition entry_long :: json where
  "entry_long = JDict [(''start'', JInt 0), (''end'', JInt end_long)]"

fun nested :: "nat \<Rightarrow> json" where
  "nested 0 = JList []"
| "nested (Suc n) = JList [nested n]"

definition loads_table :: "string \<Rightarrow> loads_result" where
  "loads_table s =
     (if s = plan_two then
        Loaded (JList [JDict [(''start'', JInt 5), (''end'', JInt 10)],
                       JDict [(''start'', JInt 20), (''end'', JInt 25)]])
      else if s = plan_bad then
        Loaded (JList [JDict [(''start'', JInt 5), (''end'', JInt 10)],
                       JDict [(''start'', JInt 20), (''end'', JInt 15)]])
      else if s = plan_bool then
        Loaded (JList [JDict [(''start'', JBool False), (''end'', JBool True)]])
      else if s = ''{not json'' then
        JSONDecodeError
          ''Expecting property name enclosed in double quotes: line 1 column 2 (char 1)''
      else if s = plan_deep then
        OtherError ''maximum recursion depth exceeded while decoding a JSON array''
      else if s = plan_long then
        ValueError ''Exceeds the limit (4300 digits) for integer string conversion''
      else JSONDecodeError ''Expecting value: line 1 column 1 (char 0)'')"

definition temp_candidates :: "string \<Rightarrow> path list" where
  "temp_candidates suffix = [''temp/tmpk3v9x2ab'' @ suffix, ''temp/tmpq7r_1mzc'' @ suffix]"

definition mkstemp_ok :: "string \<Rightarrow> string \<Rightarrow> fs \<Rightarrow> (string + path) \<times> fs" where
  "mkstemp_ok suffix data fs =
     (case filter (\<lambda>p. fs p = None) (temp_candidates suffix) of
        [] \<Rightarrow> (Inl ''FileExistsError'', fs)
      | p # ps \<Rightarrow> (Inr p, fs(p \<mapsto> Plain data)))"

definition env_ok :: env where
  "env_ok =
     \<lparr>json_loads = loads_table,
      named_temporary_file = mkstemp_ok,
      video_duration = (\<lambda>p fs. case fs p of
                          Some (Plain data) \<Rightarrow> Inr (Fin (if data = ''22s'' then 22 else 30))
                        | _ \<Rightarrow> Inl ''OSError''),
      write_audiofile = (\<lambda>src dst fs. (None, fs(dst \<mapsto> Plain ''mp3''))),
      ffmpeg_extract_subclip = (\<lambda>src s e dst fs. (None, fs(dst \<mapsto> Plain ''clip''))),
      undeletable = (\<lambda>p. False),
      tree_walk = (\<lambda>p. [p])\<rparr>"

definition up_a :: upload where
  "up_a = \<lparr>content_type = Some ''video/mp4'', filename = Some ''a.mp4'', content = ''30s''\<rparr>"

definition w0 :: world where
  "w0 = \<lparr>files = Map.empty, calls = []\<rparr>"

text \<open>
  \<open>end_exceeds c d\<close>: the \<open>end\<close> of the entry \<open>c\<close> is greater than the duration \<open>d\<close>.
  \<open>extraction_succeeds en\<close>: every call of \<open>ffmpeg_extract_subclip\<close> returns normally, has
  written its target, and has touched no other file. \<open>extract_call\<close> is the call the loop
  makes for the entry \<open>c\<close> at the 0-based index \<open>j\<close>.
\<close>

definition end_exceeds :: "json \<Rightarrow> pynum \<Rightarrow> bool" where
  "end_exceeds c d = py_gt (seconds (field c ''end'')) d"

definition extraction_succeeds :: "env \<Rightarrow> bool" where
  "extraction_succeeds en =
     (\<forall>src s e dst fs.
        fst (ffmpeg_extract_subclip en src s e dst fs) = None \<and>
        snd (ffmpeg_extract_subclip en src s e dst fs) dst \<noteq> None \<and>
        (\<forall>p. p \<noteq> dst \<longrightarrow> snd (ffmpeg_extract_subclip en src s e dst fs) p = fs p))"

definition extract_call :: "path \<Rightarrow> string \<Rightarrow> nat \<Rightarrow> nat \<times> json \<Rightarrow> call" where
  "extract_call src base n jc =
     FfmpegExtractSubclip src (field (snd jc) ''start'') (field (snd jc) ''end'')
       (temp_join (clip_filename base n (fst jc)))"

text \<open>
  A 22-second upload of the same name, and two engines whose second extraction fails: one
  raises, the other returns without having written its target.
\<close>

definition up_short :: upload where
  "up_short = \<lparr>content_type = Some ''video/mp4'', filename = Some ''a.mp4'', content = ''22s''\<rparr>"

definition env_fail :: env where
  "env_fail = env_ok
     \<lparr>ffmpeg_extract_subclip :=
        (\<lambda>src s e dst fs.
           if s = JInt 20 then (Some ''ffmpeg exited with code 1'', fs)
           else (None, fs(dst \<mapsto> Plain ''clip'')))\<rparr>"

definition env_silent :: env where
  "env_silent = env_ok
     \<lparr>ffmpeg_extract_subclip :=
        (\<lambda>src s e dst fs.
           if s = JInt 20 then (None, fs)
           else (None, fs(dst \<mapsto> Plain ''clip'')))\<rparr>"

definition cs_two :: "json list" where
  "cs_two = [JDict [(''start'', JInt 5), (''end'', JInt 10)],
             JDict [(''start'', JInt 20), (''end'', JInt 25)]]"

definition tmp_a :: path where
  "tmp_a = ''temp/tmpk3v9x2ab.mp4''"

text \<open>
  A further upload with the file name of \<open>up_a\<close> and other content, and two \<open>/clip\<close>
  requests handled one after the other, the second arriving before the background cleanup
  of the first has run.
\<close>

definition up_b :: upload where
  "up_b = \<lparr>content_type = Some ''video/mp4'', filename = Some ''a.mp4'',
            content = ''another video''\<rparr>"

definition tmp_b :: path where
  "tmp_b = ''temp/tmpq7r_1mzc.mp4''"

definition first_run :: "response \<times> path option list \<times> world" where
  "first_run = clip_video env_ok up_a plan_two w0"

definition second_run :: "response \<times> path option list \<times> world" where
  "second_run = clip_video env_ok up_b plan_two (snd (snd first_run))"

definition files_after_first :: fs where
  "files_after_first =
     [tmp_a \<mapsto> Plain ''30s'', ''temp/a_clips.zip'' \<mapsto> Zip [],
      ''temp/a_clip_1.mp4'' \<mapsto> Plain ''clip'',
      ''temp/a_clips.zip'' \<mapsto> Zip [''a_clip_1.mp4''],
      ''temp/a_clip_2.mp4'' \<mapsto> Plain ''clip'',
      ''temp/a_clips.zip'' \<mapsto> Zip [''a_clip_1.mp4'', ''a_clip_2.mp4'']]"

definition calls_of_run :: "path \<Rightarrow> call list" where
  "calls_of_run src =
     [NamedTemporaryFile ''.mp4'', VideoFileClip src,
      FfmpegExtractSubclip src (JInt 5) (JInt 10) ''temp/a_clip_1.mp4'',
      FfmpegExtractSubclip src (JInt 20) (JInt 25) ''temp/a_clip_2.mp4'']"

text \<open>An upload whose file name has a directory and two dots.\<close>

definition up_dir :: upload where
  "up_dir = \<lparr>content_type = Some ''video/quicktime'',
              filename = Some ''clips/holiday.final.mov'', content = ''30s''\<rparr>"

text \<open>An upload that is no video, and the plan entry with boolean times.\<close>

definition up_text :: upload where
  "up_text = \<lparr>content_type = Some ''text/plain'', filename = Some ''a.mp4'', content = ''30s''\<rparr>"

definition entry_bool :: json where
  "entry_bool = JDict [(''start'', JBool False), (''end'', JBool True)]"

section \<open>\<open>cleanup_files\<close> is safe and idempotent\<close>

lemma shrinks_refl: "shrinks en fs fs"
  by (simp add: shrinks_def)

lemma shrinks_trans: "shrinks en a b \<Longrightarrow> shrinks en b c \<Longrightarrow> shrinks en a c"
  unfolding shrinks_def by metis

lemma shrinks_upd: "\<not> undeletable en p \<Longrightarrow> shrinks en fs (fs(p := None))"
  by (simp add: shrinks_def)

lemma walk_gone: "fs q = None \<Longrightarrow> rmtree_walk en (q # qs) fs = rmtree_walk en qs fs"
  by simp

lemma walk_blocked:
  "fs q \<noteq> None \<Longrightarrow> undeletable en q \<Longrightarrow> rmtree_walk en (q # qs) fs = (Some ''PermissionError'', fs)"
  by auto

lemma walk_removed:
  "fs q \<noteq> None \<Longrightarrow> \<not> undeletable en q \<Longrightarrow>
   rmtree_walk en (q # qs) fs = rmtree_walk en qs (fs(q := None))"
  by auto

lemma os_remove_shrinks: "shrinks en fs (snd (os_remove en p fs))"
  by (auto simp: os_remove_def shrinks_refl shrinks_upd split: option.splits fobj.splits)

lemma rmtree_walk_shrinks: "shrinks en fs (snd (rmtree_walk en qs fs))"
proof (induction qs arbitrary: fs)
  case Nil
  show ?case by (simp add: shrinks_refl)
next
  case (Cons q qs)
  show ?case
  proof (cases "fs q = None")
    case True
    show ?thesis unfolding walk_gone [where fs=fs and q=q, OF True] by (rule Cons.IH)
  next
    case ex: False
    show ?thesis
    proof (cases "undeletable en q")
      case True
      show ?thesis unfolding walk_blocked [where fs=fs and q=q, OF ex True] by (simp add: shrinks_refl)
    next
      case False
      show ?thesis unfolding walk_removed [where fs=fs and q=q, OF ex False]
        by (rule shrinks_trans [OF shrinks_upd [OF False] Cons.IH])
    qed
  qed
qed

lemma snd_cleanup_one:
  "snd (cleanup_one en p fs) =
     (case p of
        None \<Rightarrow> fs
      | Some a \<Rightarrow>
          if a \<noteq> [] \<and> fs a \<noteq> None
          then (if fs a = Some Dir then snd (rmtree_walk en (tree_walk en a) fs)
                else snd (os_remove en a fs))
          else fs)"
  by (cases p) (auto simp: cleanup_one_def shutil_rmtree_def split: prod.splits option.splits)

lemma cleanup_one_shrinks: "shrinks en fs (snd (cleanup_one en p fs))"
  unfolding snd_cleanup_one
  by (cases p) (simp_all add: shrinks_refl os_remove_shrinks rmtree_walk_shrinks)

lemma cleanup_one_no_raise: "fst (cleanup_one en p fs) = None"
  by (auto simp: cleanup_one_def split: option.splits prod.splits)

lemma cleanup_files_no_raise: "fst (cleanup_files en ps fs) = None"
proof (induction ps arbitrary: fs)
  case Nil
  show ?case by simp
next
  case (Cons p ps)
  obtain fs' where "cleanup_one en p fs = (None, fs')"
    using cleanup_one_no_raise [of en p fs] by (cases "cleanup_one en p fs") auto
  then show ?case using Cons.IH [of fs'] by simp
qed

lemma cleanup_files_Cons:
  "cleanup_files en (p # ps) fs = cleanup_files en ps (snd (cleanup_one en p fs))"
  using cleanup_one_no_raise [of en p fs] by (auto split: prod.splits option.splits)

lemma cleanup_files_shrinks: "shrinks en fs (snd (cleanup_files en ps fs))"
proof (induction ps arbitrary: fs)
  case Nil
  show ?case by (simp add: shrinks_refl)
next
  case (Cons p ps)
  show ?case
    unfolding cleanup_files_Cons
    using shrinks_trans [OF cleanup_one_shrinks Cons.IH] .
qed

lemma stuck_walk: "stuck en qs fs \<Longrightarrow> rmtree_walk en qs fs = (if \<exists>q\<in>set qs. fs q \<noteq> None then Some ''PermissionError'' else None, fs)"
  by (induction qs) auto

lemma stuck_walk_snd: "stuck en qs fs \<Longrightarrow> snd (rmtree_walk en qs fs) = fs"
  by (simp add: stuck_walk)

lemma walk_keeps_None: "fs q = None \<Longrightarrow> snd (rmtree_walk en qs fs) q = None"
  using rmtree_walk_shrinks [of en fs qs] unfolding shrinks_def by metis

lemma stuck_gone: "fs q = None \<Longrightarrow> stuck en (q # qs) fs = stuck en qs fs"
  by simp

lemma walk_stuck: "stuck en qs (snd (rmtree_walk en qs fs))"
proof (induction qs arbitrary: fs)
  case Nil
  show ?case by simp
next
  case (Cons q qs)
  show ?case
  proof (cases "fs q = None")
    case True
    have w: "rmtree_walk en (q # qs) fs = rmtree_walk en qs fs"
      using True by (rule walk_gone)
    have "snd (rmtree_walk en qs fs) q = None"
      using True by (rule walk_keeps_None)
    then have e: "stuck en (q # qs) (snd (rmtree_walk en qs fs))
        = stuck en qs (snd (rmtree_walk en qs fs))"
      by (rule stuck_gone)
    show ?thesis unfolding w e by (rule Cons.IH)
  next
    case ex: False
    show ?thesis
    proof (cases "undeletable en q")
      case True
      have "rmtree_walk en (q # qs) fs = (Some ''PermissionError'', fs)"
        using ex True by (rule walk_blocked)
      then show ?thesis using ex True by auto
    next
      case False
      let ?g = "fs(q := None)"
      have w: "rmtree_walk en (q # qs) fs = rmtree_walk en qs ?g"
        using ex False by (rule walk_removed)
      have "?g q = None" by simp
      then have "snd (rmtree_walk en qs ?g) q = None"
        by (rule walk_keeps_None)
      then have e: "stuck en (q # qs) (snd (rmtree_walk en qs ?g))
          = stuck en qs (snd (rmtree_walk en qs ?g))"
        by (rule stuck_gone)
      show ?thesis unfolding w e by (rule Cons.IH)
    qed
  qed
qed

lemma stuck_shrinks: "stuck en qs fs \<Longrightarrow> shrinks en fs fs' \<Longrightarrow> stuck en qs fs'"
proof (induction qs)
  case Nil
  show ?case by simp
next
  case (Cons q qs)
  from Cons.prems(2) have q: "fs' q = fs q \<or> (fs' q = None \<and> \<not> undeletable en q)"
    unfolding shrinks_def by blast
  show ?case
  proof (cases "fs q = None")
    case True
    with q have "fs' q = None" by auto
    with True Cons show ?thesis by simp
  next
    case False
    with Cons.prems(1) have "undeletable en q" by auto
    with q False show ?thesis by auto
  qed
qed

lemma settled_fix: "settled en p fs \<Longrightarrow> snd (cleanup_one en p fs) = fs"
  unfolding snd_cleanup_one
  by (cases p) (auto simp: settled_def os_remove_def stuck_walk_snd
      split: option.splits fobj.splits if_splits)

lemma settled_after: "settled en p (snd (cleanup_one en p fs))"
proof (cases p)
  case None
  then show ?thesis by (simp add: settled_def)
next
  case (Some a)
  show ?thesis
  proof (cases "a \<noteq> [] \<and> fs a \<noteq> None")
    case False
    with Some show ?thesis by (auto simp: settled_def cleanup_one_def)
  next
    case ex: True
    show ?thesis
    proof (cases "fs a = Some Dir")
      case True
      have s: "snd (cleanup_one en p fs) = snd (rmtree_walk en (tree_walk en a) fs)"
        using Some ex True by (simp add: snd_cleanup_one)
      have "snd (rmtree_walk en (tree_walk en a) fs) a = fs a
          \<or> snd (rmtree_walk en (tree_walk en a) fs) a = None"
        using rmtree_walk_shrinks [of en fs "tree_walk en a"] unfolding shrinks_def by metis
      then show ?thesis unfolding s using Some True walk_stuck [of en "tree_walk en a" fs]
        by (auto simp: settled_def)
    next
      case False
      have s: "snd (cleanup_one en p fs) = snd (os_remove en a fs)"
        using Some ex False by (simp add: snd_cleanup_one)
      show ?thesis unfolding s using Some ex False
        by (auto simp: settled_def os_remove_def split: option.splits fobj.splits)
    qed
  qed
qed

lemma settled_shrinks: "settled en p fs \<Longrightarrow> shrinks en fs fs' \<Longrightarrow> settled en p fs'"
proof (cases p)
  case None
  then show ?thesis by (simp add: settled_def)
next
  case (Some a)
  assume st: "settled en p fs" and sh: "shrinks en fs fs'"
  from sh have q: "fs' a = fs a \<or> (fs' a = None \<and> \<not> undeletable en a)"
    unfolding shrinks_def by blast
  show ?thesis
  proof (cases "a = [] \<or> fs' a = None")
    case True
    with Some show ?thesis by (auto simp: settled_def)
  next
    case False
    with q have eq: "fs' a = fs a" by auto
    with False st Some have c: "if fs a = Some Dir then stuck en (tree_walk en a) fs else undeletable en a"
      by (auto simp: settled_def)
    show ?thesis using c eq Some stuck_shrinks [OF _ sh, of "tree_walk en a"]
      by (auto simp: settled_def)
  qed
qed

lemma cleanup_files_settled:
  "p \<in> set ps \<Longrightarrow> settled en p (snd (cleanup_files en ps fs))"
proof (induction ps arbitrary: fs)
  case Nil
  then show ?case by simp
next
  case (Cons x ps)
  show ?case
  proof (cases "p \<in> set ps")
    case True
    then show ?thesis unfolding cleanup_files_Cons by (rule Cons.IH)
  next
    case False
    with Cons.prems have "p = x" by simp
    then show ?thesis unfolding cleanup_files_Cons
      using settled_shrinks [OF settled_after cleanup_files_shrinks] by blast
  qed
qed

lemma settled_all_fix:
  "(\<forall>p\<in>set ps. settled en p fs) \<Longrightarrow> cleanup_files en ps fs = (None, fs)"
proof (induction ps)
  case Nil
  show ?case by simp
next
  case (Cons x ps)
  then show ?case unfolding cleanup_files_Cons by (simp add: settled_fix)
qed

lemma cleanup_files_idem:
  "cleanup_files en ps (snd (cleanup_files en ps fs)) = cleanup_files en ps fs"
proof -
  have "cleanup_files en ps (snd (cleanup_files en ps fs)) = (None, snd (cleanup_files en ps fs))"
    by (rule settled_all_fix) (simp add: cleanup_files_settled)
  then show ?thesis using cleanup_files_no_raise [of en ps fs] by (simp add: prod_eq_iff)
qed

lemma cleanup_files_removes:
  assumes "Some q \<in> set ps" "q \<noteq> []" "fs q \<noteq> Some Dir" "\<not> undeletable en q"
  shows "snd (cleanup_files en ps fs) q = None"
proof -
  have st: "settled en (Some q) (snd (cleanup_files en ps fs))"
    using assms(1) by (rule cleanup_files_settled)
  have "snd (cleanup_files en ps fs) q = fs q \<or> snd (cleanup_files en ps fs) q = None"
    using cleanup_files_shrinks [of en fs ps] unfolding shrinks_def by metis
  with st assms show ?thesis by (auto simp: settled_def split: if_splits)
qed

lemma stuck_cases:
  "stuck en qs fs \<Longrightarrow>
   (\<forall>x\<in>set qs. fs x = None) \<or>
   (\<exists>pre p post. qs = pre @ p # post \<and> (\<forall>x\<in>set pre. fs x = None) \<and>
      fs p \<noteq> None \<and> undeletable en p)"
proof (induction qs)
  case Nil
  show ?case by simp
next
  case (Cons q qs)
  show ?case
  proof (cases "fs q = None")
    case True
    with Cons.prems have "stuck en qs fs" by simp
    from Cons.IH [OF this] show ?thesis
    proof
      assume "\<forall>x\<in>set qs. fs x = None"
      with True show ?thesis by simp
    next
      assume "\<exists>pre p post. qs = pre @ p # post \<and> (\<forall>x\<in>set pre. fs x = None) \<and>
        fs p \<noteq> None \<and> undeletable en p"
      then obtain pre p post where h: "qs = pre @ p # post" "\<forall>x\<in>set pre. fs x = None"
        "fs p \<noteq> None" "undeletable en p" by blast
      have "q # qs = (q # pre) @ p # post \<and> (\<forall>x\<in>set (q # pre). fs x = None) \<and>
          fs p \<noteq> None \<and> undeletable en p"
        using h True by simp
      then have "\<exists>pre p post. q # qs = pre @ p # post \<and> (\<forall>x\<in>set pre. fs x = None) \<and>
          fs p \<noteq> None \<and> undeletable en p"
        by (intro exI)
      then show ?thesis by (rule disjI2)
    qed
  next
    case False
    with Cons.prems have u: "undeletable en q" by auto
    have "q # qs = [] @ q # qs \<and> (\<forall>x\<in>set []. fs x = None) \<and>
        fs q \<noteq> None \<and> undeletable en q"
      using False u by simp
    then have "\<exists>pre p post. q # qs = pre @ p # post \<and> (\<forall>x\<in>set pre. fs x = None) \<and>
        fs p \<noteq> None \<and> undeletable en p"
      by (intro exI)
    then show ?thesis by (rule disjI2)
  qed
qed

lemma cleanup_files_removes_tree:
  assumes "Some q \<in> set ps" "q \<noteq> []" "q \<in> set (tree_walk en q)"
    "\<forall>p\<in>set (tree_walk en q). \<not> undeletable en p"
  shows "snd (cleanup_files en ps fs) q = None"
proof (rule ccontr)
  let ?F = "snd (cleanup_files en ps fs)"
  assume ex: "?F q \<noteq> None"
  have st: "settled en (Some q) ?F" using assms(1) by (rule cleanup_files_settled)
  have nu: "\<not> undeletable en q" using assms(3,4) by blast
  from st ex assms(2) nu have "stuck en (tree_walk en q) ?F"
    by (auto simp: settled_def split: if_splits)
  from stuck_cases [OF this] show False
  proof
    assume "\<forall>x\<in>set (tree_walk en q). snd (cleanup_files en ps fs) x = None"
    then have "snd (cleanup_files en ps fs) q = None" using assms(3) by (rule bspec)
    with ex show False by (rule notE)
  next
    assume "\<exists>pre p post. tree_walk en q = pre @ p # post \<and>
      (\<forall>x\<in>set pre. snd (cleanup_files en ps fs) x = None) \<and>
      snd (cleanup_files en ps fs) p \<noteq> None \<and> undeletable en p"
    then obtain pre p post where "tree_walk en q = pre @ p # post" "undeletable en p"
      by blast
    then have "p \<in> set (tree_walk en q)" "undeletable en p" by simp_all
    with assms(4) show False by blast
  qed
qed

lemma cleanup_files_left_directory:
  assumes "Some q \<in> set ps" "q \<noteq> []" "snd (cleanup_files en ps fs) q = Some Dir"
  shows "(\<forall>x\<in>set (tree_walk en q). snd (cleanup_files en ps fs) x = None) \<or>
   (\<exists>pre p post. tree_walk en q = pre @ p # post \<and>
      (\<forall>x\<in>set pre. snd (cleanup_files en ps fs) x = None) \<and>
      snd (cleanup_files en ps fs) p \<noteq> None \<and> undeletable en p)"
proof -
  have "settled en (Some q) (snd (cleanup_files en ps fs))"
    using assms(1) by (rule cleanup_files_settled)
  with assms(2,3) have "stuck en (tree_walk en q) (snd (cleanup_files en ps fs))"
    by (simp add: settled_def)
  then show ?thesis by (rule stuck_cases)
qed

text \<open>
  Claim C7. For every list of paths, with \<open>None\<close> entries, with paths that do not exist or
  were removed before: \<open>cleanup_files\<close> never raises. Whatever happened to the other
  entries of the list, every listed regular file that can be removed is gone afterwards;
  so is every listed entry, file or directory, that is in its own walk when nothing in
  that walk resists removal; and of a listed directory that is still there, the walk was
  emptied up to its first entry that cannot be removed. A second call on the same list
  leaves the storage as the first call left it.
\<close>

theorem cleanup_files_safe:
  "fst (cleanup_files en ps fs) = None \<and>
   (\<forall>q. Some q \<in> set ps \<and> q \<noteq> [] \<and> fs q \<noteq> Some Dir \<and> \<not> undeletable en q
      \<longrightarrow> snd (cleanup_files en ps fs) q = None) \<and>
   (\<forall>q. Some q \<in> set ps \<and> q \<noteq> [] \<and> q \<in> set (tree_walk en q) \<and>
        (\<forall>p\<in>set (tree_walk en q). \<not> undeletable en p)
      \<longrightarrow> snd (cleanup_files en ps fs) q = None) \<and>
   (\<forall>q. Some q \<in> set ps \<and> q \<noteq> [] \<and> snd (cleanup_files en ps fs) q = Some Dir
      \<longrightarrow> (\<forall>x\<in>set (tree_walk en q). snd (cleanup_files en ps fs) x = None) \<or>
          (\<exists>pre p post. tree_walk en q = pre @ p # post \<and>
             (\<forall>x\<in>set pre. snd (cleanup_files en ps fs) x = None) \<and>
             snd (cleanup_files en ps fs) p \<noteq> None \<and> undeletable en p)) \<and>
   cleanup_files en ps (snd (cleanup_files en ps fs)) = cleanup_files en ps fs"
proof (intro conjI allI impI)
  show "fst (cleanup_files en ps fs) = None" by (rule cleanup_files_no_raise)
  show "cleanup_files en ps (snd (cleanup_files en ps fs)) = cleanup_files en ps fs"
    by (rule cleanup_files_idem)
next
  fix q
  assume "Some q \<in> set ps \<and> q \<noteq> [] \<and> fs q \<noteq> Some Dir \<and> \<not> undeletable en q"
  then show "snd (cleanup_files en ps fs) q = None"
    using cleanup_files_removes [of q ps fs en] by blast
next
  fix q
  assume "Some q \<in> set ps \<and> q \<noteq> [] \<and> q \<in> set (tree_walk en q) \<and>
        (\<forall>p\<in>set (tree_walk en q). \<not> undeletable en p)"
  then show "snd (cleanup_files en ps fs) q = None"
    using cleanup_files_removes_tree [of q ps en fs] by blast
next
  fix q
  assume "Some q \<in> set ps \<and> q \<noteq> [] \<and> snd (cleanup_files en ps fs) q = Some Dir"
  then show "(\<forall>x\<in>set (tree_walk en q). snd (cleanup_files en ps fs) x = None) \<or>
          (\<exists>pre p post. tree_walk en q = pre @ p # post \<and>
             (\<forall>x\<in>set pre. snd (cleanup_files en ps fs) x = None) \<and>
             snd (cleanup_files en ps fs) p \<noteq> None \<and> undeletable en p)"
    using cleanup_files_left_directory [of q ps en fs] by blast
qed

theorem cleanup_files_safe_witness:
  "Some ''temp/a.mp4'' \<in> set ps_locked \<and> fs_locked ''temp/a.mp4'' = Some (Plain ''y'') \<and>
   \<not> undeletable env_locked ''temp/a.mp4'' \<and>
   Some ''temp/d'' \<in> set ps_locked \<and> fs_locked ''temp/d'' = Some Dir \<and>
   tree_walk env_locked ''temp/d'' = [''temp/d/x'', ''temp/d''] \<and>
   snd (cleanup_files env_locked ps_locked fs_locked) ''temp/a.mp4'' = None \<and>
   snd (cleanup_files env_locked ps_locked fs_locked) ''temp/d'' = None \<and>
   snd (cleanup_files env_locked ps_locked fs_locked) ''temp/d/x'' = None \<and>
   snd (cleanup_files env_locked ps_locked fs_locked) ''temp/locked.mp4'' = Some (Plain ''x'') \<and>
   fst (cleanup_files env_locked ps_locked fs_locked) = None"
proof -
  have h: "Some ''temp/a.mp4'' \<in> set ps_locked \<and> ''temp/a.mp4'' \<noteq> [] \<and>
      fs_locked ''temp/a.mp4'' \<noteq> Some Dir \<and> \<not> undeletable env_locked ''temp/a.mp4''"
    by (simp add: ps_locked_def fs_locked_def env_locked_def)
  have t: "tree_walk env_locked ''temp/d'' = [''temp/d/x'', ''temp/d'']"
    by (simp add: env_locked_def)
  have d: "Some ''temp/d'' \<in> set ps_locked \<and> ''temp/d'' \<noteq> [] \<and>
      ''temp/d'' \<in> set (tree_walk env_locked ''temp/d'') \<and>
      (\<forall>p\<in>set (tree_walk env_locked ''temp/d''). \<not> undeletable env_locked p)"
    unfolding t by (simp add: ps_locked_def env_locked_def)
  have k: "snd (cleanup_files env_locked ps_locked fs_locked) ''temp/locked.mp4'' = Some (Plain ''x'')
      \<and> snd (cleanup_files env_locked ps_locked fs_locked) ''temp/d/x'' = None"
    by (simp add: ps_locked_def fs_locked_def env_locked_def cleanup_one_def os_remove_def
          shutil_rmtree_def)
  from cleanup_files_safe [of env_locked ps_locked fs_locked] h d
  have "snd (cleanup_files env_locked ps_locked fs_locked) ''temp/a.mp4'' = None"
    and "snd (cleanup_files env_locked ps_locked fs_locked) ''temp/d'' = None"
    and "fst (cleanup_files env_locked ps_locked fs_locked) = None"
    by blast+
  with h k t show ?thesis by (simp add: fs_locked_def ps_locked_def)
qed

section \<open>Plan validation\<close>

lemma check_clip_spec:
  "check_clip i c = map_option (\<lambda>r. rule_detail r i) (spec_broken_rule c)"
proof (cases c)
  case (JDict kvs)
  show ?thesis
  proof (cases "map_of kvs ''start''")
    case None
    then show ?thesis using JDict
      by (simp add: spec_broken_rule_def is_object_def has_key_def)
  next
    case s: (Some s)
    show ?thesis
    proof (cases "map_of kvs ''end''")
      case None
      then show ?thesis using JDict s
        by (simp add: spec_broken_rule_def is_object_def has_key_def)
    next
      case e: (Some e)
      have k: "has_key c ''start''" "has_key c ''end''"
        using JDict s e by (simp_all add: has_key_def)
      have f: "field c ''start'' = s" "field c ''end'' = e"
        using JDict s e by (simp_all add: field_def get_item_def)
      show ?thesis
      proof (cases "num_val s")
        case None
        then show ?thesis using JDict s e k f
          by (simp add: spec_broken_rule_def is_object_def is_number_def)
      next
        case x: (Some x)
        show ?thesis
        proof (cases "num_val e")
          case None
          then show ?thesis using JDict s e k f x
            by (simp add: spec_broken_rule_def is_object_def is_number_def)
        next
          case (Some y)
          then show ?thesis using JDict s e k f x
            by (simp add: spec_broken_rule_def is_object_def is_number_def seconds_def)
        qed
      qed
    qed
  qed
qed (simp_all add: spec_broken_rule_def is_object_def)

lemma rule_detail_malformed: "malformed_input (rule_detail r i)"
  by (cases r) simp_all

lemma validate_clips_malformed: "validate_clips i cs = Some d \<Longrightarrow> malformed_input d"
proof (induction cs arbitrary: i)
  case Nil
  then show ?case by simp
next
  case (Cons c cs)
  show ?case
  proof (cases "spec_broken_rule c")
    case None
    then have "validate_clips (Suc i) cs = Some d"
      using Cons.prems by (simp add: check_clip_spec)
    then show ?thesis by (rule Cons.IH)
  next
    case (Some r)
    then have "d = rule_detail r i" using Cons.prems by (simp add: check_clip_spec)
    then show ?thesis by (simp add: rule_detail_malformed)
  qed
qed

lemma validate_clips_None:
  "(validate_clips i cs = None) = (\<forall>c\<in>set cs. spec_broken_rule c = None)"
  by (induction cs arbitrary: i) (auto simp: check_clip_spec split: option.splits)

lemma validate_clips_first:
  "k < length cs \<Longrightarrow> spec_broken_rule (cs ! k) = Some r \<Longrightarrow>
   (\<forall>j<k. spec_broken_rule (cs ! j) = None) \<Longrightarrow>
   validate_clips i cs = Some (rule_detail r (i + k))"
proof (induction cs arbitrary: i k)
  case Nil
  then show ?case by simp
next
  case (Cons c cs)
  show ?case
  proof (cases k)
    case 0
    with Cons.prems show ?thesis by (simp add: check_clip_spec)
  next
    case (Suc m)
    have c: "spec_broken_rule c = None" using Cons.prems(3) Suc by auto
    have "validate_clips (Suc i) cs = Some (rule_detail r (Suc i + m))"
    proof (rule Cons.IH)
      show "m < length cs" using Cons.prems(1) Suc by simp
      show "spec_broken_rule (cs ! m) = Some r" using Cons.prems(2) Suc by simp
      show "\<forall>j<m. spec_broken_rule (cs ! j) = None"
      proof (intro allI impI)
        fix j assume "j < m"
        then have "Suc j < k" using Suc by simp
        with Cons.prems(3) have "spec_broken_rule ((c # cs) ! Suc j) = None" by blast
        then show "spec_broken_rule (cs ! j) = None" by simp
      qed
    qed
    with c Suc show ?thesis by (simp add: check_clip_spec)
  qed
qed

lemma parse_clips_Inl_iff:
  "(\<exists>ex. parse_clips loads raw = Inl ex) = spec_malformed (loads raw)"
proof (cases "loads raw")
  case (Loaded j)
  show ?thesis
  proof (cases j)
    case (JList cs)
    show ?thesis
    proof (cases "validate_clips 0 cs")
      case None
      then have "\<forall>c\<in>set cs. spec_broken_rule c = None"
        by (simp add: validate_clips_None)
      then show ?thesis using Loaded JList None
        by (simp add: parse_clips_def spec_malformed_def)
    next
      case (Some d)
      then have "\<not> (\<forall>c\<in>set cs. spec_broken_rule c = None)"
        using validate_clips_None [of 0 cs] by simp
      then have "\<exists>c\<in>set cs. spec_broken_rule c \<noteq> None" by blast
      then show ?thesis using Loaded JList Some
        by (simp add: parse_clips_def spec_malformed_def del: not_None_eq)
    qed
  qed (simp_all add: Loaded parse_clips_def spec_malformed_def)
qed (simp_all add: parse_clips_def spec_malformed_def)

lemma parse_clips_malformed:
  assumes "parse_clips loads raw = Inl ex" "decoded (loads raw)"
  shows "\<exists>d. ex = HTTPException 400 d \<and> malformed_input d"
proof (cases "loads raw")
  case (Loaded j)
  show ?thesis
  proof (cases j)
    case (JList cs)
    show ?thesis
    proof (cases "validate_clips 0 cs")
      case None
      with assms(1) Loaded JList show ?thesis
        by (auto simp: parse_clips_def split: if_splits)
    next
      case (Some d)
      then have "malformed_input d" by (rule validate_clips_malformed)
      with assms(1) Loaded JList Some show ?thesis by (auto simp: parse_clips_def)
    qed
  qed (use assms(1) Loaded in \<open>auto simp: parse_clips_def\<close>)
qed (use assms in \<open>auto simp: parse_clips_def decoded_def\<close>)

lemma check_durations_beyond:
  "check_durations i cs d = Some ex \<Longrightarrow> beyond_parsing ex"
proof (induction cs arbitrary: i)
  case Nil
  then show ?case by simp
next
  case (Cons c cs)
  from Cons.prems show ?case
    by (auto simp: beyond_parsing_def dest: Cons.IH split: sum.splits option.splits if_splits)
qed

lemma clip_loop_beyond:
  "clip_loop en src base n zp i cs cps w = (Some ex, cps', w') \<Longrightarrow> beyond_parsing ex"
proof (induction cs arbitrary: i cps w)
  case Nil
  then show ?case by simp
next
  case (Cons c cs)
  from Cons.prems show ?case
    by (auto simp: beyond_parsing_def Let_def dest: Cons.IH
             split: sum.splits option.splits if_splits prod.splits)
qed

lemma clip_archive_beyond:
  "clip_archive en up cs src w = (Raised ex, loc, w') \<Longrightarrow> beyond_parsing ex"
  by (auto simp: clip_archive_def Let_def beyond_parsing_def dest: clip_loop_beyond
           split: prod.splits option.splits if_splits)

lemma clip_body_beyond:
  "clip_body en up cs w = (Raised ex, loc, w') \<Longrightarrow> beyond_parsing ex"
  by (auto simp: clip_body_def Let_def beyond_parsing_def
           dest: clip_archive_beyond check_durations_beyond
           split: prod.splits sum.splits option.splits)

lemma clip_archive_returned:
  "clip_archive en up cs src w = (Returned r g, loc, w') \<Longrightarrow> \<exists>a b c. r = FileResponse a b c"
  by (auto simp: clip_archive_def Let_def split: prod.splits option.splits if_splits)

lemma clip_body_returned:
  "clip_body en up cs w = (Returned r g, loc, w') \<Longrightarrow> \<exists>a b c. r = FileResponse a b c"
  by (auto simp: clip_body_def Let_def dest: clip_archive_returned
           split: prod.splits sum.splits option.splits)

lemma clip_handlers_beyond:
  assumes "fst (clip_handlers en (clip_body en up cs w)) = HTTPError code d"
  shows "\<not> malformed_input d"
proof -
  obtain out loc w' where b: "clip_body en up cs w = (out, loc, w')"
    by (cases "clip_body en up cs w") auto
  show ?thesis
  proof (cases out)
    case (Returned resp bg)
    have "\<exists>a b c. resp = FileResponse a b c"
      using b Returned by (auto dest: clip_body_returned)
    with assms b Returned show ?thesis by (auto simp: clip_handlers_def)
  next
    case (Raised ex)
    with b have "beyond_parsing ex" by (auto dest: clip_body_beyond)
    with assms b Raised show ?thesis
      by (cases ex) (auto simp: clip_handlers_def beyond_parsing_def)
  qed
qed

lemma clip_video_parse_fail:
  "is_video up \<Longrightarrow> parse_clips (json_loads en) clips = Inl (HTTPException code d) \<Longrightarrow>
   clip_video en up clips w = (HTTPError code d, [], w)"
  by (simp add: clip_video_def)

lemma clip_video_parsed:
  "is_video up \<Longrightarrow> parse_clips (json_loads en) clips = Inr cs \<Longrightarrow>
   clip_video en up clips w = clip_handlers en (clip_body en up cs w)"
  by (simp add: clip_video_def)

lemma clip_video_early:
  assumes "spec_malformed (json_loads en clips)"
  shows "snd (clip_video en up clips w) = ([], w)"
proof -
  from assms obtain ex where "parse_clips (json_loads en) clips = Inl ex"
    using parse_clips_Inl_iff [of "json_loads en" clips] by blast
  then show ?thesis by (cases ex) (simp_all add: clip_video_def)
qed

lemma clip_video_malformed_iff:
  assumes "is_video up" "decoded (json_loads en clips)"
  shows "(\<exists>d. malformed_input d \<and> fst (clip_video en up clips w) = HTTPError 400 d)
     = spec_malformed (json_loads en clips)"
proof (cases "parse_clips (json_loads en) clips")
  case (Inl ex)
  then have "spec_malformed (json_loads en clips)"
    using parse_clips_Inl_iff [of "json_loads en" clips] by blast
  moreover from parse_clips_malformed [OF Inl assms(2)] obtain d where
    d: "ex = HTTPException 400 d" "malformed_input d" by blast
  moreover have "fst (clip_video en up clips w) = HTTPError 400 d"
    using clip_video_parse_fail [OF assms(1) Inl [unfolded d(1)]] by simp
  ultimately show ?thesis by blast
next
  case (Inr cs)
  then have n: "\<not> spec_malformed (json_loads en clips)"
    using parse_clips_Inl_iff [of "json_loads en" clips] by auto
  have "\<not> malformed_input d" if "fst (clip_video en up clips w) = HTTPError 400 d" for d
    using that clip_handlers_beyond [of en up cs w 400 d] clip_video_parsed [OF assms(1) Inr]
    by simp
  with n show ?thesis by blast
qed

lemma clip_video_first_violation:
  assumes "is_video up" "json_loads en clips = Loaded (JList cs)" "k < length cs"
    "spec_broken_rule (cs ! k) = Some r" "\<forall>j<k. spec_broken_rule (cs ! j) = None"
  shows "fst (clip_video en up clips w) = HTTPError 400 (rule_detail r k)"
proof -
  have "validate_clips 0 cs = Some (rule_detail r (0 + k))"
    using assms(3-5) by (rule validate_clips_first)
  then have "parse_clips (json_loads en) clips = Inl (HTTPException 400 (rule_detail r k))"
    using assms(2) by (simp add: parse_clips_def)
  from clip_video_parse_fail [OF assms(1) this] show ?thesis by simp
qed

lemma clip_video_plan_shape:
  assumes "is_video up"
  shows "json_loads en clips = JSONDecodeError msg \<Longrightarrow>
           fst (clip_video en up clips w) = HTTPError 400 (InvalidJSON msg)"
    and "json_loads en clips = Loaded j \<Longrightarrow> \<forall>cs. j \<noteq> JList cs \<Longrightarrow>
           fst (clip_video en up clips w) = HTTPError 400 ClipsMustBeList"
    and "json_loads en clips = Loaded (JList []) \<Longrightarrow>
           fst (clip_video en up clips w) = HTTPError 400 NoClips"
  using assms by (simp_all add: clip_video_def parse_clips_def split: json.splits)

text \<open>
  Claim C5, as amended. For a \<open>/clip\<close> request with a video content type and a raw \<open>clips\<close>
  value on which \<^verbatim>\<open>json.loads\<close> returns a value or raises \<open>JSONDecodeError\<close>: the request
  fails with status 400 and a \<open>MalformedInput\<close> message if and only if the value is not
  well-formed JSON, is not a list, is empty, or has an entry that is not an object, lacks
  \<open>start\<close> or \<open>end\<close>, has a \<open>start\<close> or \<open>end\<close> that is neither a number nor a boolean, or
  that is negative, or has \<open>end <= start\<close>, a boolean counting as 1 or 0. In that case the
  world is left as it was: no call to the engine or the temp-file allocator, no file
  written, nothing scheduled. When an entry is malformed, the message is the one of the
  first rule broken by the first malformed entry, with its 0-based index; otherwise it
  says that the value is not valid JSON, is not a list, or names no clip.
\<close>

theorem clip_plan_malformed_iff:
  assumes "is_video up" "decoded (json_loads en clips)"
  shows "((\<exists>d. malformed_input d \<and> fst (clip_video en up clips w) = HTTPError 400 d)
            = spec_malformed (json_loads en clips)) \<and>
         (spec_malformed (json_loads en clips) \<longrightarrow> snd (clip_video en up clips w) = ([], w)) \<and>
         (\<forall>msg. json_loads en clips = JSONDecodeError msg
            \<longrightarrow> fst (clip_video en up clips w) = HTTPError 400 (InvalidJSON msg)) \<and>
         (\<forall>j. json_loads en clips = Loaded j \<and> (\<forall>cs. j \<noteq> JList cs)
            \<longrightarrow> fst (clip_video en up clips w) = HTTPError 400 ClipsMustBeList) \<and>
         (json_loads en clips = Loaded (JList [])
            \<longrightarrow> fst (clip_video en up clips w) = HTTPError 400 NoClips) \<and>
         (\<forall>cs k r. json_loads en clips = Loaded (JList cs) \<and> k < length cs \<and>
            spec_broken_rule (cs ! k) = Some r \<and> (\<forall>j<k. spec_broken_rule (cs ! j) = None)
            \<longrightarrow> fst (clip_video en up clips w) = HTTPError 400 (rule_detail r k))"
  using clip_video_malformed_iff [OF assms, of w] clip_video_early [of en clips up w]
    clip_video_first_violation [OF assms(1), of en clips _ _ _ w]
    clip_video_plan_shape [OF assms(1)]
  by blast

lemma loads_plan_bad:
  "json_loads env_ok plan_bad =
     Loaded (JList [JDict [(''start'', JInt 5), (''end'', JInt 10)],
                    JDict [(''start'', JInt 20), (''end'', JInt 15)]])"
  by (simp add: env_ok_def loads_table_def plan_bad_def plan_two_def)

theorem clip_plan_malformed_iff_witness:
  "is_video up_a \<and> decoded (json_loads env_ok plan_bad) \<and>
   spec_malformed (json_loads env_ok plan_bad) \<and>
   clip_video env_ok up_a plan_bad w0 = (HTTPError 400 (ClipEndNotGreater 1), [], w0)"
proof -
  have v: "is_video up_a" by (simp add: is_video_def up_a_def)
  let ?cs = "[JDict [(''start'', JInt 5), (''end'', JInt 10)],
              JDict [(''start'', JInt 20), (''end'', JInt 15)]]"
  have b0: "spec_broken_rule (?cs ! 0) = None"
    by (simp add: spec_broken_rule_def is_object_def has_key_def field_def get_item_def
          is_number_def seconds_def)
  have b1: "spec_broken_rule (?cs ! 1) = Some EndNotAfterStart"
    by (simp add: spec_broken_rule_def is_object_def has_key_def field_def get_item_def
          is_number_def seconds_def)
  have d: "decoded (json_loads env_ok plan_bad)"
    unfolding loads_plan_bad by (simp add: decoded_def)
  have m: "spec_malformed (json_loads env_ok plan_bad)"
    unfolding loads_plan_bad using b1 by (simp add: spec_malformed_def)
  have f: "\<forall>j<1. spec_broken_rule (?cs ! j) = None" using b0 by simp
  from clip_plan_malformed_iff [OF v d, of w0] m
  have s: "snd (clip_video env_ok up_a plan_bad w0) = ([], w0)"
    and "fst (clip_video env_ok up_a plan_bad w0) = HTTPError 400 (rule_detail EndNotAfterStart 1)"
    using loads_plan_bad b1 f by (blast, force)
  then show ?thesis using v d m by (simp add: prod_eq_iff)
qed

text \<open>
  Claim C9. A \<open>/clip\<close> request whose plan fails parsing or structural validation writes no
  file at all: the storage and the list of calls are unchanged, so the upload itself is
  never persisted, and no cleanup is scheduled.
\<close>

theorem malformed_plan_writes_nothing:
  assumes "spec_malformed (json_loads en clips)"
  shows "files (snd (snd (clip_video en up clips w))) = files w \<and>
         calls (snd (snd (clip_video en up clips w))) = calls w \<and>
         fst (snd (clip_video en up clips w)) = []"
  using clip_video_early [OF assms, of up w] by simp

theorem malformed_plan_writes_nothing_witness:
  "spec_malformed (json_loads env_ok ''{not json'') \<and>
   files (snd (snd (clip_video env_ok up_a ''{not json'' w0))) = Map.empty \<and>
   calls (snd (snd (clip_video env_ok up_a ''{not json'' w0))) = []"
proof -
  have m: "spec_malformed (json_loads env_ok ''{not json'')"
    by (simp add: spec_malformed_def env_ok_def loads_table_def plan_two_def plan_bad_def
          plan_bool_def)
  from malformed_plan_writes_nothing [OF m, of up_a w0] m show ?thesis
    by (simp add: w0_def)
qed

lemma num_val_bool_as_int: "num_val (bool_as_int v) = num_val v"
  by (cases v) (simp_all add: bool_as_int_def)

lemma map_of_bools_as_ints:
  "map_of (map (\<lambda>(k, v). (k, bool_as_int v)) kvs) k = map_option bool_as_int (map_of kvs k)"
  by (induction kvs) auto

lemma check_clip_bools_as_ints: "check_clip i (entry_bools_as_ints c) = check_clip i c"
proof (cases c)
  case (JDict kvs)
  show ?thesis
    unfolding JDict entry_bools_as_ints_def
    by (cases "map_of kvs ''start''"; cases "map_of kvs ''end''")
       (simp_all add: map_of_bools_as_ints num_val_bool_as_int)
qed (simp_all add: entry_bools_as_ints_def)

lemma validate_clips_bools_as_ints:
  "validate_clips i (map entry_bools_as_ints cs) = validate_clips i cs"
  by (induction cs arbitrary: i) (simp_all add: check_clip_bools_as_ints split: option.splits)

lemma bool_or_number_num_val: "bool_or_number v \<Longrightarrow> num_val v \<noteq> None"
  by (cases v) (simp_all add: bool_or_number_def)

lemma check_clip_not_rejected:
  assumes "map_of kvs ''start'' = Some s" "map_of kvs ''end'' = Some e"
    "bool_or_number s" "bool_or_number e"
  shows "check_clip i (JDict kvs) \<noteq> Some (ClipNotNumbers i)"
proof -
  obtain x y where "num_val s = Some x" "num_val e = Some y"
    using assms(3,4) bool_or_number_num_val by blast
  with assms(1,2) show ?thesis by simp
qed

text \<open>
  Claim C10. A JSON boolean passes the numeric test of plan validation and is compared as
  1 (\<open>true\<close>) or 0 (\<open>false\<close>): an entry whose \<open>start\<close> and \<open>end\<close> are booleans or numbers
  is never rejected as non-numeric, and validation gives the same verdict when every
  boolean is replaced by that integer.
\<close>

theorem booleans_count_as_numbers:
  "bool_or_number (JBool b) \<and>
   num_val (JBool b) = num_val (JInt (if b then 1 else 0)) \<and>
   (\<forall>kvs s e. map_of kvs ''start'' = Some s \<and> map_of kvs ''end'' = Some e \<and>
        bool_or_number s \<and> bool_or_number e
      \<longrightarrow> check_clip i (JDict kvs) \<noteq> Some (ClipNotNumbers i)) \<and>
   validate_clips i (map entry_bools_as_ints cs) = validate_clips i cs"
  using check_clip_not_rejected [of _ _ _ i] validate_clips_bools_as_ints [of i cs]
  by (auto simp: bool_or_number_def)

theorem booleans_count_as_numbers_witness:
  "bool_or_number (JBool False) \<and> bool_or_number (JBool True) \<and>
   check_clip 0 (JDict [(''start'', JBool False), (''end'', JBool True)]) \<noteq> Some (ClipNotNumbers 0) \<and>
   parse_clips (json_loads env_ok) plan_bool
     = Inr [JDict [(''start'', JBool False), (''end'', JBool True)]]"
proof -
  have p: "parse_clips (json_loads env_ok) plan_bool
     = Inr [JDict [(''start'', JBool False), (''end'', JBool True)]]"
    by (simp add: parse_clips_def env_ok_def loads_table_def plan_two_def plan_bad_def
          plan_bool_def)
  from booleans_count_as_numbers [of True 0 "[]"] p show ?thesis
    by (simp add: bool_or_number_def)
qed

section \<open>The clip endpoint\<close>

lemma valid_entry:
  assumes "spec_broken_rule c = None"
  shows "\<exists>s e x y. get_item c ''start'' = Inr s \<and> get_item c ''end'' = Inr e \<and>
           num_val s = Some x \<and> num_val e = Some y"
proof -
  from assms have o: "is_object c" and k: "has_key c ''start''" "has_key c ''end''"
    and n: "is_number (field c ''start'')" "is_number (field c ''end'')"
    by (auto simp: spec_broken_rule_def split: if_splits)
  from o obtain kvs where c: "c = JDict kvs" by (cases c) (simp_all add: is_object_def)
  from k c obtain s e where se: "map_of kvs ''start'' = Some s" "map_of kvs ''end'' = Some e"
    by (auto simp: has_key_def)
  then have g: "get_item c ''start'' = Inr s" "get_item c ''end'' = Inr e"
    using c by (simp_all add: get_item_def)
  then have "field c ''start'' = s" "field c ''end'' = e" by (simp_all add: field_def)
  with n obtain x y where "num_val s = Some x" "num_val e = Some y"
    by (auto simp: is_number_def)
  with g show ?thesis by blast
qed

lemma parse_clips_Inr:
  assumes "parse_clips loads raw = Inr cs"
  shows "cs \<noteq> [] \<and> (\<forall>c\<in>set cs. spec_broken_rule c = None) \<and> loads raw = Loaded (JList cs)"
  using assms
  by (auto simp: parse_clips_def validate_clips_None
           split: loads_result.splits json.splits option.splits if_splits)

lemma check_durations_step:
  assumes "spec_broken_rule c = None"
  shows "check_durations i (c # cs) d =
     (if end_exceeds c d then Some (HTTPException 400 (ClipEndExceeds i (field c ''end'') d))
      else check_durations (Suc i) cs d)"
proof -
  from valid_entry [OF assms] obtain e y where
    "get_item c ''end'' = Inr e" "num_val e = Some y" by blast
  then show ?thesis by (simp add: end_exceeds_def field_def seconds_def)
qed

lemma check_durations_first:
  "\<forall>c\<in>set cs. spec_broken_rule c = None \<Longrightarrow> k < length cs \<Longrightarrow> end_exceeds (cs ! k) d \<Longrightarrow>
   \<forall>j<k. \<not> end_exceeds (cs ! j) d \<Longrightarrow>
   check_durations i cs d = Some (HTTPException 400 (ClipEndExceeds (i + k) (field (cs ! k) ''end'') d))"
proof (induction cs arbitrary: i k)
  case Nil
  then show ?case by simp
next
  case (Cons c cs)
  have st: "check_durations i (c # cs) d =
     (if end_exceeds c d then Some (HTTPException 400 (ClipEndExceeds i (field c ''end'') d))
      else check_durations (Suc i) cs d)"
    using Cons.prems(1) by (simp add: check_durations_step del: check_durations.simps)
  show ?case
  proof (cases k)
    case 0
    with Cons.prems(3) st show ?thesis by simp
  next
    case (Suc m)
    have c: "\<not> end_exceeds c d" using Cons.prems(4) Suc by auto
    have "check_durations (Suc i) cs d
        = Some (HTTPException 400 (ClipEndExceeds (Suc i + m) (field (cs ! m) ''end'') d))"
    proof (rule Cons.IH)
      show "\<forall>c\<in>set cs. spec_broken_rule c = None" using Cons.prems(1) by simp
      show "m < length cs" using Cons.prems(2) Suc by simp
      show "end_exceeds (cs ! m) d" using Cons.prems(3) Suc by simp
      show "\<forall>j<m. \<not> end_exceeds (cs ! j) d"
      proof (intro allI impI)
        fix j assume "j < m"
        then have "Suc j < k" using Suc by simp
        with Cons.prems(4) have "\<not> end_exceeds ((c # cs) ! Suc j) d" by blast
        then show "\<not> end_exceeds (cs ! j) d" by simp
      qed
    qed
    with st c Suc show ?thesis by simp
  qed
qed

lemma check_durations_None:
  "\<forall>c\<in>set cs. spec_broken_rule c = None \<Longrightarrow> \<forall>c\<in>set cs. \<not> end_exceeds c d \<Longrightarrow>
   check_durations i cs d = None"
  by (induction cs arbitrary: i)
     (simp_all add: check_durations_step del: check_durations.simps(2))

lemma first_index:
  assumes "\<exists>x\<in>set xs. P x"
  shows "\<exists>k<length xs. P (xs ! k) \<and> (\<forall>j<k. \<not> P (xs ! j))"
proof -
  from assms obtain n where n: "n < length xs \<and> P (xs ! n)"
    by (auto simp: in_set_conv_nth)
  let ?k = "LEAST n. n < length xs \<and> P (xs ! n)"
  have "?k < length xs \<and> P (xs ! ?k)" using n by (rule LeastI)
  moreover have "\<not> P (xs ! j)" if "j < ?k" for j
  proof
    assume "P (xs ! j)"
    moreover have "j < length xs" using that \<open>?k < length xs \<and> P (xs ! ?k)\<close> by simp
    ultimately have "?k \<le> j" by (simp add: Least_le)
    with that show False by simp
  qed
  ultimately show ?thesis by blast
qed

lemma clip_body_probed:
  assumes "named_temporary_file en (video_ext up) (content up) (files w) = (Inr src, fs1)"
    and "video_duration en src fs1 = Inr d"
  shows "clip_body en up cs w =
     (case check_durations 0 cs d of
        Some ex \<Rightarrow>
          (Raised ex, \<lparr>temp_video_path = Some src, temp_zip_path = None, clip_paths = []\<rparr>,
           \<lparr>files = fs1, calls = calls w @ [NamedTemporaryFile (video_ext up), VideoFileClip src]\<rparr>)
      | None \<Rightarrow>
          clip_archive en up cs src
            \<lparr>files = fs1, calls = calls w @ [NamedTemporaryFile (video_ext up), VideoFileClip src]\<rparr>)"
  using assms by (simp add: clip_body_def Let_def)

text \<open>
  Claim C4. For a structurally valid plan with an entry whose \<open>end\<close> exceeds the probed
  duration, in a request whose upload was persisted and probed: the request fails with
  status 400, the message carries the index of the first such entry in plan order, its
  \<open>end\<close> value and the probed duration, and the only calls made are the persisting of the
  upload and the probe: no extraction call.
\<close>

theorem range_exceeds_source_first:
  assumes "is_video up"
    and "parse_clips (json_loads en) clips = Inr cs"
    and "named_temporary_file en (video_ext up) (content up) (files w) = (Inr src, fs1)"
    and "video_duration en src fs1 = Inr d"
    and "\<exists>c\<in>set cs. end_exceeds c d"
  shows "\<exists>k<length cs. end_exceeds (cs ! k) d \<and> (\<forall>j<k. \<not> end_exceeds (cs ! j) d) \<and>
           clip_video en up clips w =
             (HTTPError 400 (ClipEndExceeds k (field (cs ! k) ''end'') d), [],
              \<lparr>files = fs1,
                calls = calls w @ [NamedTemporaryFile (video_ext up), VideoFileClip src]\<rparr>)"
proof -
  from first_index [OF assms(5)] obtain k where k: "k < length cs" "end_exceeds (cs ! k) d"
    "\<forall>j<k. \<not> end_exceeds (cs ! j) d" by blast
  have v: "\<forall>c\<in>set cs. spec_broken_rule c = None" using parse_clips_Inr [OF assms(2)] by simp
  have "check_durations 0 cs d
      = Some (HTTPException 400 (ClipEndExceeds (0 + k) (field (cs ! k) ''end'') d))"
    using v k by (rule check_durations_first)
  then have "clip_video en up clips w =
             (HTTPError 400 (ClipEndExceeds k (field (cs ! k) ''end'') d), [],
              \<lparr>files = fs1,
                calls = calls w @ [NamedTemporaryFile (video_ext up), VideoFileClip src]\<rparr>)"
    unfolding clip_video_parsed [OF assms(1,2)] clip_body_probed [OF assms(3,4)]
    by (simp add: clip_handlers_def)
  with k show ?thesis by blast
qed

lemma clip_path_not_zip: "temp_join (clip_filename base n j) \<noteq> temp_join (zip_filename b)"
proof
  assume "temp_join (clip_filename base n j) = temp_join (zip_filename b)"
  then have "last (clip_filename base n j) = last (zip_filename b)"
    by (simp add: temp_join_def)
  then show False by (simp add: clip_filename_def zip_filename_def)
qed

lemma clip_loop_step:
  assumes "extraction_succeeds en" "spec_broken_rule c = None"
    "files w zp = Some (Zip es)" "temp_join (clip_filename base n i) \<noteq> zp"
  shows "\<exists>fs2. fs2 zp = Some (Zip (es @ [clip_filename base n i])) \<and>
     clip_loop en src base n zp i (c # cs) cps w =
     clip_loop en src base n zp (Suc i) cs (cps @ [temp_join (clip_filename base n i)])
       \<lparr>files = fs2, calls = calls w @ [extract_call src base n (i, c)]\<rparr>"
proof -
  from valid_entry [OF assms(2)] obtain s e where
    g: "get_item c ''start'' = Inr s" "get_item c ''end'' = Inr e" by blast
  let ?cp = "temp_join (clip_filename base n i)"
  let ?r = "ffmpeg_extract_subclip en src s e ?cp (files w)"
  from assms(1) have r: "fst ?r = None" "snd ?r ?cp \<noteq> None" "snd ?r zp = files w zp"
    using assms(4) unfolding extraction_succeeds_def by metis+
  have z: "zip_write zp ?cp (clip_filename base n i) (snd ?r)
      = (None, (snd ?r)(zp \<mapsto> Zip (es @ [clip_filename base n i])))"
    using r assms(3) by (simp add: zip_write_def del: not_None_eq)
  have "clip_loop en src base n zp i (c # cs) cps w =
     clip_loop en src base n zp (Suc i) cs (cps @ [?cp])
       \<lparr>files = (snd ?r)(zp \<mapsto> Zip (es @ [clip_filename base n i])),
         calls = calls w @ [extract_call src base n (i, c)]\<rparr>"
    using g r z by (simp add: Let_def extract_call_def field_def del: not_None_eq)
  then show ?thesis by (intro exI [of _ "(snd ?r)(zp \<mapsto> Zip (es @ [clip_filename base n i]))"]) simp
qed

lemma clip_loop_success:
  assumes "extraction_succeeds en" "\<forall>j. temp_join (clip_filename base n j) \<noteq> zp"
  shows "\<forall>c\<in>set cs. spec_broken_rule c = None \<Longrightarrow> files w zp = Some (Zip es) \<Longrightarrow>
    \<exists>w'. clip_loop en src base n zp i cs cps w =
            (None, cps @ map (\<lambda>jc. temp_join (clip_filename base n (fst jc))) (enumerate i cs), w') \<and>
          calls w' = calls w @ map (extract_call src base n) (enumerate i cs) \<and>
          files w' zp = Some (Zip (es @ map (\<lambda>jc. clip_filename base n (fst jc)) (enumerate i cs)))"
proof (induction cs arbitrary: i cps w es)
  case Nil
  then show ?case by simp
next
  case (Cons c cs)
  have c: "spec_broken_rule c = None" using Cons.prems(1) by simp
  from clip_loop_step [OF assms(1) c Cons.prems(2), of base n i src cs cps] assms(2)
  obtain fs2 where fs2: "fs2 zp = Some (Zip (es @ [clip_filename base n i]))"
    and st: "clip_loop en src base n zp i (c # cs) cps w =
     clip_loop en src base n zp (Suc i) cs (cps @ [temp_join (clip_filename base n i)])
       \<lparr>files = fs2, calls = calls w @ [extract_call src base n (i, c)]\<rparr>"
    by blast
  let ?w1 = "\<lparr>files = fs2, calls = calls w @ [extract_call src base n (i, c)]\<rparr>"
  have "\<forall>c\<in>set cs. spec_broken_rule c = None" using Cons.prems(1) by simp
  moreover have "files ?w1 zp = Some (Zip (es @ [clip_filename base n i]))" using fs2 by simp
  ultimately obtain w' where
    l: "clip_loop en src base n zp (Suc i) cs (cps @ [temp_join (clip_filename base n i)]) ?w1 =
            (None, (cps @ [temp_join (clip_filename base n i)])
                     @ map (\<lambda>jc. temp_join (clip_filename base n (fst jc))) (enumerate (Suc i) cs), w')"
    and k: "calls w' = calls ?w1 @ map (extract_call src base n) (enumerate (Suc i) cs)"
    and f: "files w' zp = Some (Zip ((es @ [clip_filename base n i])
                     @ map (\<lambda>jc. clip_filename base n (fst jc)) (enumerate (Suc i) cs)))"
    using Cons.IH [of ?w1 "es @ [clip_filename base n i]" "Suc i"
        "cps @ [temp_join (clip_filename base n i)]"] by blast
  show ?case
    unfolding st using l k f by (intro exI [of _ w']) simp
qed

lemma clip_archive_success:
  assumes "extraction_succeeds en" "\<forall>c\<in>set cs. spec_broken_rule c = None"
    and "files w (temp_join (zip_filename (base_filename up))) \<noteq> Some Dir"
  shows "\<exists>w'. fst (clip_archive en up cs src w) =
           Returned (FileResponse (temp_join (zip_filename (base_filename up)))
                       (zip_filename (base_filename up)) ''application/zip'')
             ([Some src, Some (temp_join (zip_filename (base_filename up)))] @
              map (\<lambda>jc. Some (temp_join (clip_filename (base_filename up) (length cs) (fst jc))))
                (enumerate 0 cs)) \<and>
         snd (snd (clip_archive en up cs src w)) = w' \<and>
         calls w' = calls w @ map (extract_call src (base_filename up) (length cs)) (enumerate 0 cs) \<and>
         files w' (temp_join (zip_filename (base_filename up))) =
           Some (Zip (map (\<lambda>jc. clip_filename (base_filename up) (length cs) (fst jc))
                        (enumerate 0 cs)))"
proof -
  let ?base = "base_filename up"
  let ?zp = "temp_join (zip_filename ?base)"
  let ?w1 = "w\<lparr>files := (files w)(?zp \<mapsto> Zip [])\<rparr>"
  have o: "zip_open ?zp (files w) = (None, (files w)(?zp \<mapsto> Zip []))"
    using assms(3) by (simp add: zip_open_def)
  have nz: "\<forall>j. temp_join (clip_filename ?base (length cs) j) \<noteq> ?zp"
    by (simp add: clip_path_not_zip)
  have "files ?w1 ?zp = Some (Zip [])" by simp
  from clip_loop_success [OF assms(1) nz assms(2) this, of src 0 "[]"]
  obtain w' where
    l: "clip_loop en src ?base (length cs) ?zp 0 cs [] ?w1 =
          (None, map (\<lambda>jc. temp_join (clip_filename ?base (length cs) (fst jc))) (enumerate 0 cs), w')"
    and k: "calls w' = calls w @ map (extract_call src ?base (length cs)) (enumerate 0 cs)"
    and f: "files w' ?zp =
          Some (Zip (map (\<lambda>jc. clip_filename ?base (length cs) (fst jc)) (enumerate 0 cs)))"
    by auto
  have "clip_archive en up cs src w =
      (Returned (FileResponse ?zp (zip_filename ?base) ''application/zip'')
         ([Some src, Some ?zp] @
          map Some (map (\<lambda>jc. temp_join (clip_filename ?base (length cs) (fst jc)))
                      (enumerate 0 cs))),
       \<lparr>temp_video_path = Some src, temp_zip_path = Some ?zp,
         clip_paths = map (\<lambda>jc. temp_join (clip_filename ?base (length cs) (fst jc)))
                        (enumerate 0 cs)\<rparr>,
       w')"
    using o l f by (simp add: clip_archive_def Let_def)
  then show ?thesis using k f by (simp add: comp_def)
qed

text \<open>
  Claim C6. For a valid plan of \<open>N\<close> entries, none exceeding the probed duration, with an
  engine whose extractions all succeed: the request returns the archive
  \<open>{base}_clips.zip\<close>; exactly \<open>N\<close> extraction calls are made, one per entry in plan order,
  each to the target named for its index; the archive holds exactly these \<open>N\<close> names in plan
  order, \<open>{base}_clip.mp4\<close> when \<open>N = 1\<close> and \<open>{base}_clip_{i}.mp4\<close> with the 1-based index
  otherwise.
\<close>

theorem all_clips_extracted_in_order:
  assumes "is_video up"
    and "parse_clips (json_loads en) clips = Inr cs"
    and "named_temporary_file en (video_ext up) (content up) (files w) = (Inr src, fs1)"
    and "video_duration en src fs1 = Inr d"
    and "\<forall>c\<in>set cs. \<not> end_exceeds c d"
    and "extraction_succeeds en"
    and "fs1 (temp_join (zip_filename (base_filename up))) \<noteq> Some Dir"
  shows "\<exists>w'. clip_video en up clips w =
           (FileResponse (temp_join (zip_filename (base_filename up)))
              (zip_filename (base_filename up)) ''application/zip'',
            [Some src, Some (temp_join (zip_filename (base_filename up)))] @
              map (\<lambda>jc. Some (temp_join (clip_filename (base_filename up) (length cs) (fst jc))))
                (enumerate 0 cs),
            w') \<and>
         calls w' = calls w @ [NamedTemporaryFile (video_ext up), VideoFileClip src] @
           map (extract_call src (base_filename up) (length cs)) (enumerate 0 cs) \<and>
         files w' (temp_join (zip_filename (base_filename up))) =
           Some (Zip (map (\<lambda>jc. clip_filename (base_filename up) (length cs) (fst jc))
                        (enumerate 0 cs))) \<and>
         (length cs = 1 \<longrightarrow>
            clip_filename (base_filename up) (length cs) 0 = base_filename up @ ''_clip.mp4'') \<and>
         (length cs \<noteq> 1 \<longrightarrow>
            (\<forall>i. clip_filename (base_filename up) (length cs) i
                  = base_filename up @ ''_clip_'' @ str_nat (i + 1) @ ''.mp4''))"
proof -
  let ?w1 = "\<lparr>files = fs1, calls = calls w @ [NamedTemporaryFile (video_ext up), VideoFileClip src]\<rparr>"
  have v: "\<forall>c\<in>set cs. spec_broken_rule c = None" using parse_clips_Inr [OF assms(2)] by simp
  have c: "check_durations 0 cs d = None" using v assms(5) by (rule check_durations_None)
  have b: "clip_body en up cs w = clip_archive en up cs src ?w1"
    unfolding clip_body_probed [OF assms(3,4)] using c by simp
  have "files ?w1 (temp_join (zip_filename (base_filename up))) \<noteq> Some Dir"
    using assms(7) by simp
  from clip_archive_success [OF assms(6) v this, of src]
  obtain w' where
    r: "fst (clip_archive en up cs src ?w1) =
           Returned (FileResponse (temp_join (zip_filename (base_filename up)))
                       (zip_filename (base_filename up)) ''application/zip'')
             ([Some src, Some (temp_join (zip_filename (base_filename up)))] @
              map (\<lambda>jc. Some (temp_join (clip_filename (base_filename up) (length cs) (fst jc))))
                (enumerate 0 cs))"
    and s: "snd (snd (clip_archive en up cs src ?w1)) = w'"
    and k: "calls w' = calls ?w1 @ map (extract_call src (base_filename up) (length cs)) (enumerate 0 cs)"
    and f: "files w' (temp_join (zip_filename (base_filename up))) =
           Some (Zip (map (\<lambda>jc. clip_filename (base_filename up) (length cs) (fst jc))
                        (enumerate 0 cs)))"
    by blast
  obtain loc where a: "clip_archive en up cs src ?w1 =
      (Returned (FileResponse (temp_join (zip_filename (base_filename up)))
                       (zip_filename (base_filename up)) ''application/zip'')
             ([Some src, Some (temp_join (zip_filename (base_filename up)))] @
              map (\<lambda>jc. Some (temp_join (clip_filename (base_filename up) (length cs) (fst jc))))
                (enumerate 0 cs)), loc, w')"
    using r s by (cases "clip_archive en up cs src ?w1") auto
  have "clip_video en up clips w =
           (FileResponse (temp_join (zip_filename (base_filename up)))
              (zip_filename (base_filename up)) ''application/zip'',
            [Some src, Some (temp_join (zip_filename (base_filename up)))] @
              map (\<lambda>jc. Some (temp_join (clip_filename (base_filename up) (length cs) (fst jc))))
                (enumerate 0 cs),
            w')"
    unfolding clip_video_parsed [OF assms(1,2)] b a by (simp add: clip_handlers_def)
  moreover have "calls w' = calls w @ [NamedTemporaryFile (video_ext up), VideoFileClip src] @
           map (extract_call src (base_filename up) (length cs)) (enumerate 0 cs)"
    using k by simp
  ultimately show ?thesis using f by (simp add: clip_filename_def)
qed

lemma str_nat_small: "str_nat 1 = ''1''" "str_nat 2 = ''2''"
  by (simp_all add: str_nat.simps digit_char_def)

lemma up_a_names:
  "is_video up_a" "video_ext up_a = ''.mp4''" "base_filename up_a = ''a''"
  "audio_filename up_a = ''a.mp3''" "content up_a = ''30s''"
  by (simp_all add: up_a_def is_video_def video_ext_def base_filename_def audio_filename_def
        py_suffix_def py_stem_def py_name_def cut_name_def)

lemma loads_plan_two: "loads_table plan_two = Loaded (JList cs_two)"
  by (simp add: loads_table_def cs_two_def)

lemma json_loads_envs:
  "json_loads env_ok = loads_table" "json_loads env_fail = loads_table"
  "json_loads env_silent = loads_table"
  by (simp_all add: env_ok_def env_fail_def env_silent_def)

lemma parse_plan_two: "parse_clips loads_table plan_two = Inr cs_two"
  unfolding parse_clips_def loads_plan_two by (simp add: cs_two_def)

lemma up_short_names:
  "is_video up_short" "video_ext up_short = ''.mp4''" "base_filename up_short = ''a''"
  "content up_short = ''22s''"
  by (simp_all add: up_short_def is_video_def video_ext_def base_filename_def
        py_suffix_def py_stem_def py_name_def cut_name_def)

lemma mkstemp_empty:
  "mkstemp_ok ''.mp4'' data Map.empty = (Inr tmp_a, [tmp_a \<mapsto> Plain data])"
  by (simp add: mkstemp_ok_def temp_candidates_def tmp_a_def)

lemma named_temporary_file_envs:
  "named_temporary_file env_ok = mkstemp_ok" "named_temporary_file env_fail = mkstemp_ok"
  "named_temporary_file env_silent = mkstemp_ok"
  by (simp_all add: env_ok_def env_fail_def env_silent_def)

lemma video_duration_envs:
  "video_duration env_ok tmp_a [tmp_a \<mapsto> Plain data] = Inr (Fin (if data = ''22s'' then 22 else 30))"
  "video_duration env_fail tmp_a [tmp_a \<mapsto> Plain data] = Inr (Fin (if data = ''22s'' then 22 else 30))"
  "video_duration env_silent tmp_a [tmp_a \<mapsto> Plain data] = Inr (Fin (if data = ''22s'' then 22 else 30))"
  by (simp_all add: env_ok_def env_fail_def env_silent_def)

lemma end_exceeds_two:
  "\<not> end_exceeds (cs_two ! 0) (Fin 22)" "end_exceeds (cs_two ! 1) (Fin 22)"
  "\<forall>c\<in>set cs_two. \<not> end_exceeds c (Fin 30)"
  by (simp_all add: cs_two_def end_exceeds_def field_def get_item_def seconds_def py_gt_def)

lemma short_request:
  "clip_video env_ok up_short plan_two w0 =
     (HTTPError 400 (ClipEndExceeds 1 (JInt 25) (Fin 22)), [],
      \<lparr>files = [tmp_a \<mapsto> Plain ''22s''],
        calls = [NamedTemporaryFile ''.mp4'', VideoFileClip tmp_a]\<rparr>)"
proof -
  have p: "parse_clips (json_loads env_ok) plan_two = Inr cs_two"
    by (simp add: json_loads_envs parse_plan_two)
  have t: "named_temporary_file env_ok (video_ext up_short) (content up_short) (files w0)
      = (Inr tmp_a, [tmp_a \<mapsto> Plain ''22s''])"
    by (simp add: named_temporary_file_envs up_short_names w0_def mkstemp_empty)
  have d: "video_duration env_ok tmp_a [tmp_a \<mapsto> Plain ''22s''] = Inr (Fin 22)"
    by (simp add: video_duration_envs)
  have c: "check_durations 0 cs_two (Fin 22)
      = Some (HTTPException 400 (ClipEndExceeds 1 (JInt 25) (Fin 22)))"
    by (simp add: cs_two_def get_item_def py_gt_def)
  show ?thesis
    unfolding clip_video_parsed [OF up_short_names(1) p] clip_body_probed [OF t d] c
    by (simp add: clip_handlers_def w0_def up_short_names)
qed

theorem range_exceeds_source_first_witness:
  "is_video up_short \<and> (\<exists>c\<in>set cs_two. end_exceeds c (Fin 22)) \<and>
   clip_video env_ok up_short plan_two w0 =
     (HTTPError 400 (ClipEndExceeds 1 (JInt 25) (Fin 22)), [],
      \<lparr>files = [tmp_a \<mapsto> Plain ''22s''],
        calls = [NamedTemporaryFile ''.mp4'', VideoFileClip tmp_a]\<rparr>)"
proof -
  have p: "parse_clips (json_loads env_ok) plan_two = Inr cs_two"
    by (simp add: json_loads_envs parse_plan_two)
  have t: "named_temporary_file env_ok (video_ext up_short) (content up_short) (files w0)
      = (Inr tmp_a, [tmp_a \<mapsto> Plain ''22s''])"
    by (simp add: named_temporary_file_envs up_short_names w0_def mkstemp_empty)
  have d: "video_duration env_ok tmp_a [tmp_a \<mapsto> Plain ''22s''] = Inr (Fin 22)"
    by (simp add: video_duration_envs)
  have e: "\<exists>c\<in>set cs_two. end_exceeds c (Fin 22)"
    using end_exceeds_two(2) by (simp add: cs_two_def)
  from range_exceeds_source_first [OF up_short_names(1) p t d e]
  obtain k where k: "k < length cs_two" "end_exceeds (cs_two ! k) (Fin 22)"
    and r: "clip_video env_ok up_short plan_two w0 =
             (HTTPError 400 (ClipEndExceeds k (field (cs_two ! k) ''end'') (Fin 22)), [],
              \<lparr>files = [tmp_a \<mapsto> Plain ''22s''],
                calls = calls w0 @ [NamedTemporaryFile (video_ext up_short), VideoFileClip tmp_a]\<rparr>)"
    by blast
  have "k = 0 \<or> k = 1" using k(1) by (auto simp: cs_two_def)
  with k(2) end_exceeds_two(1) have "k = 1" by auto
  with r have "clip_video env_ok up_short plan_two w0 =
     (HTTPError 400 (ClipEndExceeds 1 (JInt 25) (Fin 22)), [],
      \<lparr>files = [tmp_a \<mapsto> Plain ''22s''],
        calls = [NamedTemporaryFile ''.mp4'', VideoFileClip tmp_a]\<rparr>)"
    by (simp add: cs_two_def field_def get_item_def w0_def up_short_names)
  with e show ?thesis by (simp add: up_short_names)
qed

text \<open>
  Claim C2, at a failing input: the plan of two clips against a 22-second upload. The
  request answers 400 for the clip at index 1, schedules no cleanup, and the persisted
  source is still in scratch storage: the \<open>HTTPException\<close> raised by the duration check is
  raised again by the first handler, which does not call \<open>cleanup_files\<close>.
\<close>

theorem range_error_leaves_source:
  "fst (clip_video env_ok up_short plan_two w0)
     = HTTPError 400 (ClipEndExceeds 1 (JInt 25) (Fin 22)) \<and>
   fst (snd (clip_video env_ok up_short plan_two w0)) = [] \<and>
   files (snd (snd (clip_video env_ok up_short plan_two w0))) tmp_a = Some (Plain ''22s'')"
  by (simp add: short_request)

lemma str_nat_Suc: "str_nat (Suc 0) = ''1''" "str_nat (Suc (Suc 0)) = ''2''"
  using str_nat_small by (simp_all add: numeral_2_eq_2)

lemma exceeds_none_30: "check_durations 0 cs_two (Fin 30) = None"
  by (simp add: cs_two_def get_item_def py_gt_def)

lemma failing_request:
  "clip_video env_fail up_a plan_two w0 =
     (HTTPError 500 (FailedToCreateClip 2 ''ffmpeg exited with code 1''), [],
      \<lparr>files = [tmp_a \<mapsto> Plain ''30s'', ''temp/a_clips.zip'' \<mapsto> Zip [],
                 ''temp/a_clip_1.mp4'' \<mapsto> Plain ''clip'',
                 ''temp/a_clips.zip'' \<mapsto> Zip [''a_clip_1.mp4'']],
        calls = [NamedTemporaryFile ''.mp4'', VideoFileClip tmp_a,
                 FfmpegExtractSubclip tmp_a (JInt 5) (JInt 10) ''temp/a_clip_1.mp4'',
                 FfmpegExtractSubclip tmp_a (JInt 20) (JInt 25) ''temp/a_clip_2.mp4'']\<rparr>)"
proof -
  have p: "parse_clips (json_loads env_fail) plan_two = Inr cs_two"
    by (simp add: json_loads_envs parse_plan_two)
  have t: "named_temporary_file env_fail (video_ext up_a) (content up_a) (files w0)
      = (Inr tmp_a, [tmp_a \<mapsto> Plain ''30s''])"
    by (simp add: named_temporary_file_envs up_a_names w0_def mkstemp_empty)
  have d: "video_duration env_fail tmp_a [tmp_a \<mapsto> Plain ''30s''] = Inr (Fin 30)"
    by (simp add: video_duration_envs)
  have f: "ffmpeg_extract_subclip env_fail =
        (\<lambda>src s e dst fs.
           if s = JInt 20 then (Some ''ffmpeg exited with code 1'', fs)
           else (None, fs(dst \<mapsto> Plain ''clip'')))"
    by (simp add: env_fail_def)
  show ?thesis
    unfolding clip_video_parsed [OF up_a_names(1) p] clip_body_probed [OF t d] exceeds_none_30
    by (simp add: clip_handlers_def clip_archive_def zip_open_def zip_write_def get_item_def
          clip_filename_def zip_filename_def temp_join_def str_nat_small str_nat_Suc f
          cs_two_def up_a_names w0_def tmp_a_def Let_def)
qed

lemma silent_request:
  "clip_video env_silent up_a plan_two w0 =
     (HTTPError 500 (ClipNotCreated 2), [],
      \<lparr>files = [tmp_a \<mapsto> Plain ''30s'', ''temp/a_clips.zip'' \<mapsto> Zip [],
                 ''temp/a_clip_1.mp4'' \<mapsto> Plain ''clip'',
                 ''temp/a_clips.zip'' \<mapsto> Zip [''a_clip_1.mp4'']],
        calls = [NamedTemporaryFile ''.mp4'', VideoFileClip tmp_a,
                 FfmpegExtractSubclip tmp_a (JInt 5) (JInt 10) ''temp/a_clip_1.mp4'',
                 FfmpegExtractSubclip tmp_a (JInt 20) (JInt 25) ''temp/a_clip_2.mp4'']\<rparr>)"
proof -
  have p: "parse_clips (json_loads env_silent) plan_two = Inr cs_two"
    by (simp add: json_loads_envs parse_plan_two)
  have t: "named_temporary_file env_silent (video_ext up_a) (content up_a) (files w0)
      = (Inr tmp_a, [tmp_a \<mapsto> Plain ''30s''])"
    by (simp add: named_temporary_file_envs up_a_names w0_def mkstemp_empty)
  have d: "video_duration env_silent tmp_a [tmp_a \<mapsto> Plain ''30s''] = Inr (Fin 30)"
    by (simp add: video_duration_envs)
  have f: "ffmpeg_extract_subclip env_silent =
        (\<lambda>src s e dst fs.
           if s = JInt 20 then (None, fs)
           else (None, fs(dst \<mapsto> Plain ''clip'')))"
    by (simp add: env_silent_def)
  show ?thesis
    unfolding clip_video_parsed [OF up_a_names(1) p] clip_body_probed [OF t d] exceeds_none_30
    by (simp add: clip_handlers_def clip_archive_def zip_open_def zip_write_def get_item_def
          clip_filename_def zip_filename_def temp_join_def str_nat_small str_nat_Suc f
          cs_two_def up_a_names w0_def tmp_a_def Let_def)
qed

text \<open>
  Claim C1, at a failing input: the same plan against a 30-second upload, with an engine
  whose second extraction raises, or returns without an output file. The request answers
  500 for clip 2, and the persisted source, the first clip and the archive holding that
  one clip are all still in scratch storage.
\<close>

theorem clip_failure_leaves_files:
  "fst (clip_video env_fail up_a plan_two w0)
     = HTTPError 500 (FailedToCreateClip 2 ''ffmpeg exited with code 1'') \<and>
   files (snd (snd (clip_video env_fail up_a plan_two w0))) tmp_a = Some (Plain ''30s'') \<and>
   files (snd (snd (clip_video env_fail up_a plan_two w0))) ''temp/a_clip_1.mp4''
     = Some (Plain ''clip'') \<and>
   files (snd (snd (clip_video env_fail up_a plan_two w0))) ''temp/a_clips.zip''
     = Some (Zip [''a_clip_1.mp4'']) \<and>
   fst (clip_video env_silent up_a plan_two w0) = HTTPError 500 (ClipNotCreated 2) \<and>
   files (snd (snd (clip_video env_silent up_a plan_two w0))) tmp_a = Some (Plain ''30s'') \<and>
   files (snd (snd (clip_video env_silent up_a plan_two w0))) ''temp/a_clip_1.mp4''
     = Some (Plain ''clip'') \<and>
   files (snd (snd (clip_video env_silent up_a plan_two w0))) ''temp/a_clips.zip''
     = Some (Zip [''a_clip_1.mp4''])"
  by (simp add: failing_request silent_request tmp_a_def)

theorem all_clips_extracted_in_order_witness:
  "is_video up_a \<and> extraction_succeeds env_ok \<and>
   \<not> end_exceeds (cs_two ! 0) (Fin 30) \<and> \<not> end_exceeds (cs_two ! 1) (Fin 30) \<and>
   fst (clip_video env_ok up_a plan_two w0)
     = FileResponse ''temp/a_clips.zip'' ''a_clips.zip'' ''application/zip'' \<and>
   fst (snd (clip_video env_ok up_a plan_two w0))
     = [Some tmp_a, Some ''temp/a_clips.zip'', Some ''temp/a_clip_1.mp4'',
        Some ''temp/a_clip_2.mp4''] \<and>
   calls (snd (snd (clip_video env_ok up_a plan_two w0)))
     = [NamedTemporaryFile ''.mp4'', VideoFileClip tmp_a,
        FfmpegExtractSubclip tmp_a (JInt 5) (JInt 10) ''temp/a_clip_1.mp4'',
        FfmpegExtractSubclip tmp_a (JInt 20) (JInt 25) ''temp/a_clip_2.mp4''] \<and>
   files (snd (snd (clip_video env_ok up_a plan_two w0))) ''temp/a_clips.zip''
     = Some (Zip [''a_clip_1.mp4'', ''a_clip_2.mp4''])"
proof -
  have p: "parse_clips (json_loads env_ok) plan_two = Inr cs_two"
    by (simp add: json_loads_envs parse_plan_two)
  have t: "named_temporary_file env_ok (video_ext up_a) (content up_a) (files w0)
      = (Inr tmp_a, [tmp_a \<mapsto> Plain ''30s''])"
    by (simp add: named_temporary_file_envs up_a_names w0_def mkstemp_empty)
  have d: "video_duration env_ok tmp_a [tmp_a \<mapsto> Plain ''30s''] = Inr (Fin 30)"
    by (simp add: video_duration_envs)
  have x: "extraction_succeeds env_ok"
    by (simp add: extraction_succeeds_def env_ok_def)
  have z: "[tmp_a \<mapsto> Plain ''30s''] (temp_join (zip_filename (base_filename up_a))) \<noteq> Some Dir"
    by (simp add: tmp_a_def temp_join_def zip_filename_def up_a_names)
  have n: "enumerate 0 cs_two = [(0, cs_two ! 0), (1, cs_two ! 1)]" "length cs_two = 2"
    by (simp_all add: cs_two_def)
  from all_clips_extracted_in_order [OF up_a_names(1) p t d end_exceeds_two(3) x z]
  show ?thesis
    using x end_exceeds_two(3)
    by (auto simp: n up_a_names extract_call_def clip_filename_def zip_filename_def temp_join_def
          str_nat_small str_nat_Suc w0_def field_def get_item_def cs_two_def)
qed

section \<open>The convert endpoint\<close>

lemma rfind_None: "(rfind c xs = None) = (c \<notin> set xs)"
  by (induction xs) (auto split: option.splits)

lemma rfind_Some:
  "rfind c xs = Some i \<Longrightarrow> i < length xs \<and> xs ! i = c \<and> c \<notin> set (drop (Suc i) xs)"
proof (induction xs arbitrary: i)
  case Nil
  then show ?case by simp
next
  case (Cons x xs)
  show ?case
  proof (cases "rfind c xs")
    case None
    with Cons.prems have "i = 0" "x = c" by (auto split: if_splits)
    moreover have "c \<notin> set xs" using None by (simp add: rfind_None)
    ultimately show ?thesis by simp
  next
    case (Some j)
    with Cons.prems have "i = Suc j" by simp
    with Cons.IH [OF Some] show ?thesis by simp
  qed
qed

lemma cut_name_Some:
  assumes "cut_name nm = Some i"
  shows "\<exists>e. drop i nm = CHR ''.'' # e \<and> e \<noteq> [] \<and> CHR ''.'' \<notin> set e"
proof -
  from assms have r: "rfind CHR ''.'' nm = Some i" and b: "0 < i" "i < length nm - 1"
    by (auto simp: cut_name_def split: option.splits if_splits)
  from rfind_Some [OF r] have "i < length nm" "nm ! i = CHR ''.''"
    "CHR ''.'' \<notin> set (drop (Suc i) nm)" by simp_all
  moreover have "drop i nm = nm ! i # drop (Suc i) nm"
    using \<open>i < length nm\<close> by (simp add: Cons_nth_drop_Suc)
  moreover have "drop (Suc i) nm \<noteq> []" using b by simp
  ultimately show ?thesis by simp
qed

lemma stem_suffix: "py_name fn = py_stem fn @ py_suffix fn"
  by (simp add: py_stem_def py_suffix_def split: option.splits)

lemma suffix_shape:
  "py_suffix fn = [] \<or> (\<exists>e. py_suffix fn = CHR ''.'' # e \<and> e \<noteq> [] \<and> CHR ''.'' \<notin> set e)"
  using cut_name_Some [of "py_name fn"] by (auto simp: py_suffix_def split: option.splits)

lemma convert_body_returned:
  "convert_body en up w = (Returned r bg, loc, w') \<Longrightarrow>
   r = FileResponse (temp_join (audio_filename up)) (audio_filename up) ''audio/mpeg''"
  by (auto simp: convert_body_def Let_def split: prod.splits sum.splits option.splits if_splits)

lemma convert_response:
  assumes "fst (convert_video_to_audio en up w) = FileResponse p nm mt"
  shows "p = temp_join (audio_filename up) \<and> nm = audio_filename up \<and> mt = ''audio/mpeg''"
proof -
  obtain out loc w' where b: "convert_body en up w = (out, loc, w')"
    by (cases "convert_body en up w") auto
  show ?thesis
  proof (cases out)
    case (Returned r bg)
    with b have "r = FileResponse (temp_join (audio_filename up)) (audio_filename up) ''audio/mpeg''"
      by (auto dest: convert_body_returned)
    with assms b Returned show ?thesis
      by (auto simp: convert_video_to_audio_def split: if_splits)
  next
    case (Raised ex)
    with assms b show ?thesis
      by (cases ex) (auto simp: convert_video_to_audio_def split: if_splits)
  qed
qed

lemma split_on_nonempty: "split_on c xs \<noteq> []"
  by (induction xs) (auto split: list.splits)

lemma split_on_append: "split_on c (xs @ c # ys) = split_on c xs @ split_on c ys"
proof (induction xs)
  case Nil
  show ?case by simp
next
  case (Cons x xs)
  show ?case
  proof (cases "x = c")
    case True
    with Cons show ?thesis by simp
  next
    case False
    obtain y ys' where s: "split_on c xs = y # ys'"
      using split_on_nonempty [of c xs] by (cases "split_on c xs") auto
    with False Cons show ?thesis by simp
  qed
qed

lemma split_on_no_sep: "c \<notin> set b \<Longrightarrow> split_on c b = [b]"
  by (induction b) auto

lemma py_name_last:
  assumes "d = [] \<or> last d = CHR ''/''" "b \<noteq> []" "b \<noteq> ''.''" "CHR ''/'' \<notin> set b"
  shows "py_name (d @ b) = b"
proof -
  let ?P = "\<lambda>p. p \<noteq> [] \<and> p \<noteq> ''.''"
  have "\<exists>xs. split_on CHR ''/'' (d @ b) = xs @ [b]"
  proof (cases "d = []")
    case True
    then show ?thesis using assms(4) by (simp add: split_on_no_sep)
  next
    case False
    with assms(1) have "d = butlast d @ [CHR ''/'']"
      using append_butlast_last_id [of d] by simp
    then have e: "d @ b = butlast d @ CHR ''/'' # b"
      by (metis append.assoc append_Cons append_Nil)
    have "split_on CHR ''/'' (butlast d @ CHR ''/'' # b) = split_on CHR ''/'' (butlast d) @ [b]"
      using assms(4) by (simp add: split_on_append split_on_no_sep)
    then have "split_on CHR ''/'' (d @ b) = split_on CHR ''/'' (butlast d) @ [b]"
      unfolding e .
    then show ?thesis by blast
  qed
  then obtain xs where "split_on CHR ''/'' (d @ b) = xs @ [b]" by blast
  then have f: "filter ?P (split_on CHR ''/'' (d @ b)) = filter ?P xs @ [b]"
    using assms(2,3) by simp
  have "(case filter ?P xs @ [b] of [] \<Rightarrow> [] | p # ps \<Rightarrow> last (p # ps))
      = last (filter ?P xs @ [b])"
    by (cases "filter ?P xs @ [b]") simp_all
  then show ?thesis unfolding py_name_def f by simp
qed

lemma rfind_absent: "c \<notin> set xs \<Longrightarrow> rfind c xs = None"
  by (simp add: rfind_None)

lemma rfind_append: "c \<notin> set e \<Longrightarrow> rfind c (s @ c # e) = Some (length s)"
  by (induction s) (simp_all add: rfind_absent)

lemma cut_name_ext:
  assumes "s \<noteq> []" "e \<noteq> []" "CHR ''.'' \<notin> set e"
  shows "cut_name (s @ ''.'' @ e) = Some (length s)"
proof -
  have "rfind CHR ''.'' (s @ CHR ''.'' # e) = Some (length s)"
    using assms(3) by (rule rfind_append)
  then show ?thesis using assms(1,2) by (simp add: cut_name_def)
qed

lemma cut_name_none:
  assumes "CHR ''.'' \<notin> set b \<or> (\<exists>e. b = CHR ''.'' # e \<and> CHR ''.'' \<notin> set e) \<or> (\<exists>s. b = s @ ''.'')"
  shows "cut_name b = None"
proof -
  from assms consider "CHR ''.'' \<notin> set b" | e where "b = CHR ''.'' # e" "CHR ''.'' \<notin> set e"
    | s where "b = s @ ''.''" by blast
  then show ?thesis
  proof cases
    case 1
    then show ?thesis by (simp add: cut_name_def rfind_absent)
  next
    case 2
    then have "rfind CHR ''.'' b = Some 0" using rfind_append [of "CHR ''.''" e "[]"] by simp
    then show ?thesis by (simp add: cut_name_def)
  next
    case 3
    then have "rfind CHR ''.'' b = Some (length s)"
      using rfind_append [of "CHR ''.''" "[]" s] by simp
    then show ?thesis using 3 by (simp add: cut_name_def)
  qed
qed

lemma py_stem_ext:
  assumes "d = [] \<or> last d = CHR ''/''" "s \<noteq> []" "e \<noteq> []"
    "CHR ''/'' \<notin> set s" "CHR ''/'' \<notin> set e" "CHR ''.'' \<notin> set e"
  shows "py_stem (d @ s @ ''.'' @ e) = s"
proof -
  have "length (s @ ''.'' @ e) \<noteq> length ''.''" using assms(3) by simp
  then have n: "s @ ''.'' @ e \<noteq> ''.''" by (rule contrapos_nn) (erule arg_cong)
  have "py_name (d @ (s @ ''.'' @ e)) = s @ ''.'' @ e"
    using assms(1) _ n by (rule py_name_last) (use assms in auto)
  then show ?thesis using cut_name_ext [OF assms(2,3,6)] by (simp add: py_stem_def)
qed

lemma py_stem_plain:
  assumes "d = [] \<or> last d = CHR ''/''" "b \<noteq> []" "b \<noteq> ''.''" "CHR ''/'' \<notin> set b"
    "CHR ''.'' \<notin> set b \<or> (\<exists>e. b = CHR ''.'' # e \<and> CHR ''.'' \<notin> set e) \<or> (\<exists>s. b = s @ ''.'')"
  shows "py_stem (d @ b) = b"
  using py_name_last [OF assms(1-4)] cut_name_none [OF assms(5)] by (simp add: py_stem_def)

text \<open>
  Claim C8. Whenever \<open>/convert\<close> returns the MP3, it is served from \<open>TEMP_DIR\<close> as
  \<open>audio/mpeg\<close> under its attachment name, which is \<open>output.mp3\<close> if no file name came
  with the upload. Otherwise take the base name, the part of the uploaded name after its
  last slash: if it is \<open>s.e\<close> with \<open>s\<close> and \<open>e\<close> non-empty and no dot in \<open>e\<close>, the attachment
  name is \<open>s.mp3\<close>, the extension replaced; if it has no dot, or its only dot comes first,
  or it ends with a dot, there is no extension and \<open>.mp3\<close> is appended. In every case the
  attachment name is the stem that \<open>pathlib\<close> gives, followed by \<open>.mp3\<close>.
\<close>

theorem convert_attachment_name:
  assumes "fst (convert_video_to_audio en up w) = FileResponse p nm mt"
  shows "mt = ''audio/mpeg'' \<and> p = temp_join nm \<and>
     (filename up = None \<or> filename up = Some [] \<longrightarrow> nm = ''output.mp3'') \<and>
     (\<forall>d s e. filename up = Some (d @ s @ ''.'' @ e) \<and> (d = [] \<or> last d = CHR ''/'') \<and>
          s \<noteq> [] \<and> e \<noteq> [] \<and> CHR ''/'' \<notin> set s \<and> CHR ''/'' \<notin> set e \<and> CHR ''.'' \<notin> set e
        \<longrightarrow> nm = s @ ''.mp3'') \<and>
     (\<forall>d b. filename up = Some (d @ b) \<and> (d = [] \<or> last d = CHR ''/'') \<and>
          b \<noteq> [] \<and> b \<noteq> ''.'' \<and> CHR ''/'' \<notin> set b \<and>
          (CHR ''.'' \<notin> set b \<or> (\<exists>e. b = CHR ''.'' # e \<and> CHR ''.'' \<notin> set e) \<or>
           (\<exists>s. b = s @ ''.''))
        \<longrightarrow> nm = b @ ''.mp3'') \<and>
     (case filename up of
        None \<Rightarrow> nm = ''output.mp3''
      | Some fn \<Rightarrow>
          if fn = [] then nm = ''output.mp3''
          else nm = py_stem fn @ ''.mp3'' \<and> py_name fn = py_stem fn @ py_suffix fn \<and>
               (py_suffix fn = [] \<or>
                (\<exists>e. py_suffix fn = CHR ''.'' # e \<and> e \<noteq> [] \<and> CHR ''.'' \<notin> set e)))"
proof -
  from convert_response [OF assms]
  have r: "p = temp_join (audio_filename up)" "nm = audio_filename up" "mt = ''audio/mpeg''"
    by simp_all
  have a: "filename up = None \<or> filename up = Some [] \<longrightarrow> nm = ''output.mp3''"
    using r(2) by (auto simp: audio_filename_def)
  have b: "nm = s @ ''.mp3''"
    if "filename up = Some (d @ s @ ''.'' @ e) \<and> (d = [] \<or> last d = CHR ''/'') \<and>
          s \<noteq> [] \<and> e \<noteq> [] \<and> CHR ''/'' \<notin> set s \<and> CHR ''/'' \<notin> set e \<and> CHR ''.'' \<notin> set e"
    for d s e
  proof -
    from that have "py_stem (d @ s @ ''.'' @ e) = s" by (intro py_stem_ext) simp_all
    moreover from that have "d @ s @ ''.'' @ e \<noteq> []" by simp
    ultimately show ?thesis using r(2) that by (simp add: audio_filename_def)
  qed
  have c: "nm = b @ ''.mp3''"
    if "filename up = Some (d @ b) \<and> (d = [] \<or> last d = CHR ''/'') \<and>
          b \<noteq> [] \<and> b \<noteq> ''.'' \<and> CHR ''/'' \<notin> set b \<and>
          (CHR ''.'' \<notin> set b \<or> (\<exists>e. b = CHR ''.'' # e \<and> CHR ''.'' \<notin> set e) \<or>
           (\<exists>s. b = s @ ''.''))"
    for d b
  proof -
    from that have "py_stem (d @ b) = b" by (intro py_stem_plain) simp_all
    moreover from that have "d @ b \<noteq> []" by simp
    ultimately show ?thesis using r(2) that by (simp add: audio_filename_def)
  qed
  have g: "case filename up of
        None \<Rightarrow> nm = ''output.mp3''
      | Some fn \<Rightarrow>
          if fn = [] then nm = ''output.mp3''
          else nm = py_stem fn @ ''.mp3'' \<and> py_name fn = py_stem fn @ py_suffix fn \<and>
               (py_suffix fn = [] \<or>
                (\<exists>e. py_suffix fn = CHR ''.'' # e \<and> e \<noteq> [] \<and> CHR ''.'' \<notin> set e))"
    using r(2) stem_suffix suffix_shape by (auto simp: audio_filename_def split: option.splits)
  show ?thesis
  proof (intro conjI allI impI)
    show "mt = ''audio/mpeg''" by (rule r(3))
    show "p = temp_join nm" using r(1,2) by simp
    show "nm = ''output.mp3''" if "filename up = None \<or> filename up = Some []"
      using a that by (rule mp)
    show "case filename up of
        None \<Rightarrow> nm = ''output.mp3''
      | Some fn \<Rightarrow>
          if fn = [] then nm = ''output.mp3''
          else nm = py_stem fn @ ''.mp3'' \<and> py_name fn = py_stem fn @ py_suffix fn \<and>
               (py_suffix fn = [] \<or>
                (\<exists>e. py_suffix fn = CHR ''.'' # e \<and> e \<noteq> [] \<and> CHR ''.'' \<notin> set e))"
      by (rule g)
  qed (erule b, erule c)
qed

theorem convert_attachment_name_witness:
  "fst (convert_video_to_audio env_ok up_dir w0)
     = FileResponse ''temp/holiday.final.mp3'' ''holiday.final.mp3'' ''audio/mpeg'' \<and>
   filename up_dir = Some (''clips/'' @ ''holiday.final'' @ ''.'' @ ''mov'') \<and>
   fst (convert_video_to_audio env_ok up_a w0)
     = FileResponse ''temp/a.mp3'' ''a.mp3'' ''audio/mpeg'' \<and>
   fst (convert_video_to_audio env_ok (up_a\<lparr>filename := None\<rparr>) w0)
     = FileResponse ''temp/output.mp3'' ''output.mp3'' ''audio/mpeg''"
proof -
  obtain p nm mt where x: "fst (convert_video_to_audio env_ok up_dir w0) = FileResponse p nm mt"
    by (simp add: convert_video_to_audio_def convert_body_def up_dir_def is_video_def
          mkstemp_ok_def temp_candidates_def w0_def env_ok_def Let_def)
  have f: "filename up_dir = Some (''clips/'' @ ''holiday.final'' @ ''.'' @ ''mov'')"
    by (simp add: up_dir_def)
  note t = convert_attachment_name [OF x]
  have m: "mt = ''audio/mpeg''" "p = temp_join nm" using t by simp_all
  from t have "\<forall>d s e. filename up_dir = Some (d @ s @ ''.'' @ e) \<and>
          (d = [] \<or> last d = CHR ''/'') \<and>
          s \<noteq> [] \<and> e \<noteq> [] \<and> CHR ''/'' \<notin> set s \<and> CHR ''/'' \<notin> set e \<and> CHR ''.'' \<notin> set e
        \<longrightarrow> nm = s @ ''.mp3''"
    by (elim conjE)
  from this [rule_format, of "''clips/''" "''holiday.final''" "''mov''"] f
  have "nm = ''holiday.final'' @ ''.mp3''" by simp
  with m x have d: "fst (convert_video_to_audio env_ok up_dir w0)
     = FileResponse ''temp/holiday.final.mp3'' ''holiday.final.mp3'' ''audio/mpeg''"
    by (simp add: temp_join_def)
  have a: "fst (convert_video_to_audio env_ok up_a w0)
      = FileResponse ''temp/a.mp3'' ''a.mp3'' ''audio/mpeg''"
    by (simp add: convert_video_to_audio_def convert_body_def up_a_names
          named_temporary_file_envs mkstemp_empty w0_def env_ok_def temp_join_def Let_def)
  have b: "fst (convert_video_to_audio env_ok (up_a\<lparr>filename := None\<rparr>) w0)
      = FileResponse ''temp/output.mp3'' ''output.mp3'' ''audio/mpeg''"
    by (simp add: convert_video_to_audio_def convert_body_def up_a_def is_video_def video_ext_def
          audio_filename_def mkstemp_ok_def temp_candidates_def w0_def env_ok_def temp_join_def
          Let_def)
  from d f a b show ?thesis by simp
qed

section \<open>Scratch paths of different requests\<close>

lemma up_b_names:
  "is_video up_b" "video_ext up_b = ''.mp4''" "base_filename up_b = ''a''"
  "content up_b = ''another video''"
  by (simp_all add: up_b_def is_video_def video_ext_def base_filename_def
        py_suffix_def py_stem_def py_name_def cut_name_def)

lemma ffmpeg_ok:
  "ffmpeg_extract_subclip env_ok = (\<lambda>src s e dst fs. (None, fs(dst \<mapsto> Plain ''clip'')))"
  by (simp add: env_ok_def)

lemma first_run_eval:
  "first_run =
     (FileResponse ''temp/a_clips.zip'' ''a_clips.zip'' ''application/zip'',
      [Some tmp_a, Some ''temp/a_clips.zip'', Some ''temp/a_clip_1.mp4'',
       Some ''temp/a_clip_2.mp4''],
      \<lparr>files = files_after_first, calls = calls_of_run tmp_a\<rparr>)"
proof -
  have p: "parse_clips (json_loads env_ok) plan_two = Inr cs_two"
    by (simp add: json_loads_envs parse_plan_two)
  have t: "named_temporary_file env_ok (video_ext up_a) (content up_a) (files w0)
      = (Inr tmp_a, [tmp_a \<mapsto> Plain ''30s''])"
    by (simp add: named_temporary_file_envs up_a_names w0_def mkstemp_empty)
  have d: "video_duration env_ok tmp_a [tmp_a \<mapsto> Plain ''30s''] = Inr (Fin 30)"
    by (simp add: video_duration_envs)
  show ?thesis
    unfolding first_run_def clip_video_parsed [OF up_a_names(1) p] clip_body_probed [OF t d]
      exceeds_none_30
    by (simp add: clip_handlers_def clip_archive_def zip_open_def zip_write_def get_item_def
          clip_filename_def zip_filename_def temp_join_def str_nat_small str_nat_Suc ffmpeg_ok
          cs_two_def up_a_names w0_def tmp_a_def Let_def files_after_first_def calls_of_run_def)
qed

lemma second_run_eval:
  "fst second_run = FileResponse ''temp/a_clips.zip'' ''a_clips.zip'' ''application/zip'' \<and>
   fst (snd second_run) = [Some tmp_b, Some ''temp/a_clips.zip'', Some ''temp/a_clip_1.mp4'',
       Some ''temp/a_clip_2.mp4''] \<and>
   files (snd (snd second_run)) tmp_a = Some (Plain ''30s'') \<and>
   files (snd (snd second_run)) tmp_b = Some (Plain ''another video'') \<and>
   files (snd (snd second_run)) ''temp/a_clips.zip''
     = Some (Zip [''a_clip_1.mp4'', ''a_clip_2.mp4'']) \<and>
   files (snd (snd second_run)) ''temp/a_clip_1.mp4'' = Some (Plain ''clip'') \<and>
   files (snd (snd second_run)) ''temp/a_clip_2.mp4'' = Some (Plain ''clip'')"
proof -
  let ?w1 = "\<lparr>files = files_after_first, calls = calls_of_run tmp_a\<rparr>"
  have p: "parse_clips (json_loads env_ok) plan_two = Inr cs_two"
    by (simp add: json_loads_envs parse_plan_two)
  have t: "named_temporary_file env_ok (video_ext up_b) (content up_b) (files ?w1)
      = (Inr tmp_b, files_after_first(tmp_b \<mapsto> Plain ''another video''))"
    by (simp add: named_temporary_file_envs up_b_names mkstemp_ok_def temp_candidates_def
          files_after_first_def tmp_a_def tmp_b_def)
  have d: "video_duration env_ok tmp_b (files_after_first(tmp_b \<mapsto> Plain ''another video''))
      = Inr (Fin 30)"
    by (simp add: env_ok_def)
  have e: "second_run = clip_video env_ok up_b plan_two ?w1"
    by (simp add: second_run_def first_run_eval)
  show ?thesis
    unfolding e clip_video_parsed [OF up_b_names(1) p] clip_body_probed [OF t d]
      exceeds_none_30
    by (simp add: clip_handlers_def clip_archive_def zip_open_def zip_write_def get_item_def
          clip_filename_def zip_filename_def temp_join_def str_nat_small str_nat_Suc ffmpeg_ok
          cs_two_def up_b_names tmp_a_def tmp_b_def Let_def files_after_first_def)
qed

text \<open>
  Claim C3, at a failing input: two \<open>/clip\<close> requests with different uploads of the same
  file name, the second handled before the background cleanup of the first has run. The
  two sources are stored under different names, but both requests are answered with the
  archive \<open>temp/a_clips.zip\<close> and write the same clip files, and the cleanup of the first
  request removes the archive and the clips of the second.
\<close>

theorem scratch_paths_collide:
  "content up_a \<noteq> content up_b \<and>
   hd (fst (snd first_run)) = Some tmp_a \<and> hd (fst (snd second_run)) = Some tmp_b \<and>
   tmp_a \<noteq> tmp_b \<and>
   fst first_run = FileResponse ''temp/a_clips.zip'' ''a_clips.zip'' ''application/zip'' \<and>
   fst second_run = FileResponse ''temp/a_clips.zip'' ''a_clips.zip'' ''application/zip'' \<and>
   files (snd (snd second_run)) ''temp/a_clips.zip''
     = Some (Zip [''a_clip_1.mp4'', ''a_clip_2.mp4'']) \<and>
   files (run_background env_ok (fst (snd first_run)) (snd (snd second_run))) ''temp/a_clips.zip''
     = None \<and>
   files (run_background env_ok (fst (snd first_run)) (snd (snd second_run))) ''temp/a_clip_1.mp4''
     = None"
proof -
  have c: "content up_a \<noteq> content up_b" by (simp add: up_a_def up_b_def)
  have u: "undeletable env_ok = (\<lambda>p. False)" by (simp add: env_ok_def)
  have b: "fst (snd first_run) = [Some tmp_a, Some ''temp/a_clips.zip'',
      Some ''temp/a_clip_1.mp4'', Some ''temp/a_clip_2.mp4'']"
    by (simp add: first_run_eval)
  have r: "files (run_background env_ok (fst (snd first_run)) (snd (snd second_run))) ''temp/a_clips.zip''
     = None \<and>
   files (run_background env_ok (fst (snd first_run)) (snd (snd second_run))) ''temp/a_clip_1.mp4''
     = None"
    unfolding b using second_run_eval
    by (simp add: run_background_def cleanup_one_def os_remove_def u tmp_a_def)
  have t: "tmp_a \<noteq> tmp_b" by (simp add: tmp_a_def tmp_b_def)
  from c r t second_run_eval show ?thesis by (simp add: first_run_eval)
qed

section \<open>Plans outside the validation rules\<close>

lemma differs_by_length: "length xs \<noteq> length ys \<Longrightarrow> xs \<noteq> ys"
  by auto

lemma loads_plan_deep:
  "json_loads env_ok plan_deep
     = OtherError ''maximum recursion depth exceeded while decoding a JSON array''"
proof -
  have "plan_deep \<noteq> plan_two" "plan_deep \<noteq> plan_bad" "plan_deep \<noteq> plan_bool"
    "plan_deep \<noteq> ''{not json''"
    by (rule differs_by_length, simp add: plan_deep_def plan_two_def plan_bad_def plan_bool_def)+
  then show ?thesis by (simp add: json_loads_envs loads_table_def)
qed

lemma loads_plan_long:
  "json_loads env_ok plan_long
     = ValueError ''Exceeds the limit (4300 digits) for integer string conversion''"
proof -
  have "plan_long \<noteq> plan_two" "plan_long \<noteq> plan_bad" "plan_long \<noteq> plan_bool"
    "plan_long \<noteq> ''{not json''" "plan_long \<noteq> plan_deep"
    by (rule differs_by_length,
        simp add: plan_long_def plan_deep_def plan_two_def plan_bad_def plan_bool_def)+
  then show ?thesis by (simp add: json_loads_envs loads_table_def)
qed

lemma loads_not_json:
  "json_loads env_ok ''{not json''
     = JSONDecodeError ''Expecting property name enclosed in double quotes: line 1 column 2 (char 1)''"
  by (simp add: json_loads_envs loads_table_def plan_two_def plan_bad_def plan_bool_def)

lemma loads_plan_bool: "json_loads env_ok plan_bool = Loaded (JList [entry_bool])"
  by (simp add: json_loads_envs loads_table_def plan_two_def plan_bad_def plan_bool_def
        entry_bool_def)

lemma bool_request:
  "fst (clip_video env_ok up_a plan_bool w0)
     = FileResponse ''temp/a_clips.zip'' ''a_clips.zip'' ''application/zip''"
proof -
  have p: "parse_clips (json_loads env_ok) plan_bool = Inr [entry_bool]"
    unfolding parse_clips_def loads_plan_bool by (simp add: entry_bool_def)
  have t: "named_temporary_file env_ok (video_ext up_a) (content up_a) (files w0)
      = (Inr tmp_a, [tmp_a \<mapsto> Plain ''30s''])"
    by (simp add: named_temporary_file_envs up_a_names w0_def mkstemp_empty)
  have d: "video_duration env_ok tmp_a [tmp_a \<mapsto> Plain ''30s''] = Inr (Fin 30)"
    by (simp add: video_duration_envs)
  have c: "check_durations 0 [entry_bool] (Fin 30) = None"
    by (simp add: entry_bool_def get_item_def py_gt_def)
  show ?thesis
    unfolding clip_video_parsed [OF up_a_names(1) p] clip_body_probed [OF t d] c
    by (simp add: clip_handlers_def clip_archive_def zip_open_def zip_write_def get_item_def
          clip_filename_def zip_filename_def temp_join_def ffmpeg_ok
          entry_bool_def up_a_names w0_def tmp_a_def Let_def)
qed

text \<open>
  Claim C5 fails as stated, in four ways. A request whose content type is not a video is
  answered 400 for its file type, whatever the plan. A plan whose \<open>start\<close> and \<open>end\<close> are
  \<open>false\<close> and \<open>true\<close>, no numbers, is accepted and its clip returned. On a thousand
  nested brackets, a list whose only entry is no object, \<^verbatim>\<open>json.loads\<close> raises
  \<open>RecursionError\<close>, which neither handler catches: the answer is a 500, not a 400. And
  on a plan that breaks no rule but has an \<open>end\<close> of 5001 digits, \<^verbatim>\<open>json.loads\<close> raises a
  plain \<open>ValueError\<close>: the answer is a 400 whose message names no index and no rule.
\<close>

theorem malformed_iff_fails:
  "\<not> is_video up_text \<and>
   json_loads env_ok ''{not json''
     = JSONDecodeError ''Expecting property name enclosed in double quotes: line 1 column 2 (char 1)'' \<and>
   fst (clip_video env_ok up_text ''{not json'' w0) = HTTPError 400 InvalidFileType \<and>
   \<not> malformed_input InvalidFileType \<and>
   is_video up_a \<and>
   json_loads env_ok plan_bool = Loaded (JList [entry_bool]) \<and>
   worded_broken_rule entry_bool = Some NotNumeric \<and>
   fst (clip_video env_ok up_a plan_bool w0)
     = FileResponse ''temp/a_clips.zip'' ''a_clips.zip'' ''application/zip'' \<and>
   json_loads env_ok plan_deep
     = OtherError ''maximum recursion depth exceeded while decoding a JSON array'' \<and>
   nested 999 = JList [nested 998] \<and>
   worded_broken_rule (nested 998) = Some NotAnObject \<and>
   clip_video env_ok up_a plan_deep w0
     = (Uncaught ''maximum recursion depth exceeded while decoding a JSON array'', [], w0) \<and>
   json_loads env_ok plan_long
     = ValueError ''Exceeds the limit (4300 digits) for integer string conversion'' \<and>
   worded_broken_rule entry_long = None \<and>
   fst (clip_video env_ok up_a plan_long w0)
     = HTTPError 400 (PlainValueError
         ''Exceeds the limit (4300 digits) for integer string conversion'')"
proof -
  have "(0::int) < 10 ^ 5000" by (rule zero_less_power) simp
  then have "0 < end_long" unfolding end_long_def .
  then have e: "worded_broken_rule entry_long = None"
    by (simp add: worded_broken_rule_def entry_long_def is_object_def has_key_def field_def
          get_item_def json_number_def seconds_def)
  have f: "fst (clip_video env_ok up_a plan_long w0)
     = HTTPError 400 (PlainValueError
         ''Exceeds the limit (4300 digits) for integer string conversion'')"
    using up_a_names(1) by (simp add: clip_video_def parse_clips_def loads_plan_long)
  have a: "\<not> is_video up_text"
    "fst (clip_video env_ok up_text ''{not json'' w0) = HTTPError 400 InvalidFileType"
    by (simp_all add: is_video_def up_text_def clip_video_def)
  have b: "worded_broken_rule entry_bool = Some NotNumeric"
    by (simp add: worded_broken_rule_def entry_bool_def is_object_def has_key_def field_def
          get_item_def json_number_def)
  have "nested 999 = nested (Suc 998)" "nested 998 = nested (Suc 997)" by simp_all
  then have n: "nested 999 = JList [nested 998]" "nested 998 = JList [nested 997]"
    by (simp_all only: nested.simps)
  have c: "worded_broken_rule (nested 998) = Some NotAnObject"
    unfolding n(2) by (simp add: worded_broken_rule_def is_object_def)
  have d: "clip_video env_ok up_a plan_deep w0
     = (Uncaught ''maximum recursion depth exceeded while decoding a JSON array'', [], w0)"
    using up_a_names(1) by (simp add: clip_video_def parse_clips_def loads_plan_deep)
  from a b c d e f n(1) loads_plan_deep loads_plan_long loads_not_json loads_plan_bool
    bool_request up_a_names(1)
  show ?thesis by simp
qed

end
